theory Spec2Isabelle
  imports Main "HOL-Library.Sublist" "HOL-Library.AList"
begin

section \<open>Python values used by \<open>epac/taxonomy_util.py\<close>\<close>

text \<open>
  The module is Python 2. Byte strings are \<^typ>\<open>string\<close>, lists are HOL lists,
  integers are \<^typ>\<open>int\<close>, and an exception raised by the source is the \<open>Inl\<close>
  branch of a sum.
\<close>

datatype py_error = KeyError | IndexError | NameError | ValueError | RecursionError

text \<open>\<open>xs[i]\<close>: a negative index counts from the end, out of range raises.\<close>

definition py_index :: "'a list \<Rightarrow> int \<Rightarrow> py_error + 'a" where
  "py_index xs i =
     (if 0 \<le> i \<and> i < int (length xs) then Inr (xs ! nat i)
      else if i < 0 \<and> - int (length xs) \<le> i then Inr (xs ! nat (int (length xs) + i))
      else Inl IndexError)"

text \<open>\<open>xs[:k]\<close>: a negative bound counts from the end; the slice never raises.\<close>

definition py_slice_to :: "'a list \<Rightarrow> int \<Rightarrow> 'a list" where
  "py_slice_to xs k = (if k < 0 then take (nat (int (length xs) + k)) xs else take (nat k) xs)"

text \<open>\<open>sep.join(xs)\<close>.\<close>

fun py_join :: "string \<Rightarrow> string list \<Rightarrow> string" where
  "py_join sep [] = []"
| "py_join sep [x] = x"
| "py_join sep (x # y # ys) = x @ sep @ py_join sep (y # ys)"

text \<open>
  \<open>s.split(sep)\<close> for a non-empty separator: the string is scanned from the left, every
  occurrence of the separator found ends a field, and the scan goes on behind it. The
  accumulator \<open>cur\<close> is the field read so far. (Python raises ValueError on an empty
  separator; the module only splits at its constant delimiter.)
\<close>

function py_split_acc :: "string \<Rightarrow> string \<Rightarrow> string \<Rightarrow> string list" where
  "py_split_acc sep cur s =
     (if s = [] then [cur]
      else if sep \<noteq> [] \<and> prefix sep s then cur # py_split_acc sep [] (drop (length sep) s)
      else py_split_acc sep (cur @ [hd s]) (tl s))"
  by pat_completeness auto
termination
  by (relation "measure (\<lambda>(sep, cur, s). length s)") auto

declare py_split_acc.simps [simp del]

definition py_split :: "string \<Rightarrow> string \<Rightarrow> string list" where
  "py_split s sep = py_split_acc sep [] s"

section \<open>class Taxonomy: static helpers\<close>

definition EMPTY_RANK :: string where
  "EMPTY_RANK = ''-''"

definition RANK_UID_DELIM :: string where
  "RANK_UID_DELIM = ''@@''"

text \<open>
  \<open>lowest_assigned_rank_level\<close>: the loop starts at \<open>len(ranks)-1\<close> and steps down while
  the entry is the empty marker; \<open>lowest_from ranks n\<close> is the loop with \<open>rank_level = n-1\<close>.
\<close>

fun lowest_from :: "string list \<Rightarrow> nat \<Rightarrow> int" where
  "lowest_from ranks 0 = -1"
| "lowest_from ranks (Suc n) =
     (if ranks ! n = EMPTY_RANK then lowest_from ranks n else int n)"

definition lowest_assigned_rank_level :: "string list \<Rightarrow> int" where
  "lowest_assigned_rank_level ranks = lowest_from ranks (length ranks)"

definition get_rank_uid :: "string list \<Rightarrow> int \<Rightarrow> string" where
  "get_rank_uid ranks rank_level =
     (let rl = (if rank_level = -1 then lowest_assigned_rank_level ranks else rank_level)
      in py_join RANK_UID_DELIM (py_slice_to ranks (rl + 1)))"

definition split_rank_uid :: "string \<Rightarrow> int \<Rightarrow> string list" where
  "split_rank_uid rank_uid min_lvls =
     (let ranks = py_split rank_uid RANK_UID_DELIM
      in if int (length ranks) < min_lvls
         then ranks @ replicate (nat (min_lvls - int (length ranks))) EMPTY_RANK
         else ranks)"

text \<open>
  \<open>s.strip(c)\<close> for a one-character argument, and \<open>lineage_str\<close>. The module also calls
  \<open>lineage_str\<close> on a sequence identifier (a string): \<open>join\<close> then runs over its
  characters, which is \<open>lineage_str_of_sid\<close>.
\<close>

definition py_strip :: "char \<Rightarrow> string \<Rightarrow> string" where
  "py_strip c s = rev (dropWhile (\<lambda>x. x = c) (rev (dropWhile (\<lambda>x. x = c) s)))"

definition lineage_str :: "string list \<Rightarrow> string" where
  "lineage_str ranks = py_strip CHR '';'' (py_join '';'' ranks)"

definition lineage_str_of_sid :: "string \<Rightarrow> string" where
  "lineage_str_of_sid sid = lineage_str (map (\<lambda>c. [c]) sid)"

section \<open>Dictionaries\<close>

text \<open>
  A Python dictionary is an association list with distinct keys; a loop over the
  dictionary visits the entries in the order of the list. CPython 2 fixes no order, so
  a statement about every store covers every order. Assigning to a key that is present
  keeps its place.
\<close>

definition dict_get :: "('k \<times> 'v) list \<Rightarrow> 'k \<Rightarrow> py_error + 'v" where
  "dict_get d k = (case map_of d k of None \<Rightarrow> Inl KeyError | Some v \<Rightarrow> Inr v)"

definition dict_get_default :: "('k \<times> 'v) list \<Rightarrow> 'k \<Rightarrow> 'v \<Rightarrow> 'v" where
  "dict_get_default d k dflt = (case map_of d k of None \<Rightarrow> dflt | Some v \<Rightarrow> v)"

definition dict_set :: "('k \<times> 'v) list \<Rightarrow> 'k \<Rightarrow> 'v \<Rightarrow> ('k \<times> 'v) list" where
  "dict_set d k v = AList.update k v d"

definition dict_del :: "('k \<times> 'v) list \<Rightarrow> 'k \<Rightarrow> py_error + ('k \<times> 'v) list" where
  "dict_del d k = (case map_of d k of None \<Rightarrow> Inl KeyError | Some v \<Rightarrow> Inr (AList.delete k d))"

text \<open>Sequencing of calls that may raise.\<close>

definition err_bind :: "py_error + 'a \<Rightarrow> ('a \<Rightarrow> py_error + 'b) \<Rightarrow> py_error + 'b" where
  "err_bind m f = (case m of Inl e \<Rightarrow> Inl e | Inr x \<Rightarrow> f x)"

section \<open>class Taxonomy: the store\<close>

text \<open>
  The object holds the identifier prefix, the forward map \<open>seq_ranks_map\<close> (sequence
  identifier to RankPath) and the reverse index \<open>rank_seqs_map\<close> (LineageKey to the list
  of identifiers). Every sequence owns its path list, as \<open>load_taxonomy\<close> builds them.
\<close>

record taxonomy =
  id_prefix :: string
  seq_ranks_map :: "(string \<times> string list) list"
  rank_seqs_map :: "(string \<times> string list) list"

definition get_seq_ranks :: "taxonomy \<Rightarrow> string \<Rightarrow> py_error + string list" where
  "get_seq_ranks st seq_id =
     dict_get (seq_ranks_map st)
       (if prefix (id_prefix st) seq_id then seq_id else id_prefix st @ seq_id)"

definition seq_rank_id :: "taxonomy \<Rightarrow> string \<Rightarrow> py_error + string" where
  "seq_rank_id st seq_id =
     err_bind (get_seq_ranks st seq_id) (\<lambda>ranks. Inr (get_rank_uid ranks (-1)))"

definition get_rank_seqs :: "taxonomy \<Rightarrow> string \<Rightarrow> string list" where
  "get_rank_seqs st rank_id = dict_get_default (rank_seqs_map st) rank_id []"

text \<open>
  \<open>remove_seq(self, seqid)\<close>: the second statement evaluates
  \<open>self.rank_seqs_map[rank_id].remove\<close> and then its argument \<open>seq_id\<close>, a name that is
  bound nowhere (the parameter is \<open>seqid\<close>): NameError, before anything is removed.
\<close>

definition remove_seq :: "taxonomy \<Rightarrow> string \<Rightarrow> py_error + taxonomy" where
  "remove_seq st seqid =
     err_bind (seq_rank_id st seqid) (\<lambda>rank_id.
     err_bind (dict_get (rank_seqs_map st) rank_id) (\<lambda>grp. Inl NameError))"

text \<open>\<open>rename_seq\<close>: two statements, both on the forward map.\<close>

definition rename_seq :: "taxonomy \<Rightarrow> string \<Rightarrow> string \<Rightarrow> py_error + taxonomy" where
  "rename_seq st old_seqid new_seqid =
     err_bind (dict_get (seq_ranks_map st) old_seqid) (\<lambda>ranks.
     err_bind (dict_del (dict_set (seq_ranks_map st) new_seqid ranks) old_seqid) (\<lambda>m.
     Inr (st\<lparr>seq_ranks_map := m\<rparr>)))"

text \<open>
  \<open>merge_ranks\<close>. The first loop collects the members of every group and deletes the
  group (\<open>del\<close> raises KeyError on a key that is absent).
\<close>

fun merge_collect ::
  "string list \<Rightarrow> string list \<times> (string \<times> string list) list
     \<Rightarrow> py_error + (string list \<times> (string \<times> string list) list)" where
  "merge_collect [] (all_sid, rsm) = Inr (all_sid, rsm)"
| "merge_collect (rank_id # rank_ids) (all_sid, rsm) =
     err_bind (dict_del rsm rank_id) (\<lambda>rsm'.
       merge_collect rank_ids (all_sid @ dict_get_default rsm rank_id [], rsm'))"

definition merge_ranks ::
  "taxonomy \<Rightarrow> string list \<Rightarrow> string \<Rightarrow> py_error + (taxonomy \<times> string option)" where
  "merge_ranks st rank_ids name_prefix =
     (if length rank_ids < 2 then Inr (st, None)
      else
        err_bind (merge_collect rank_ids ([], rank_seqs_map st)) (\<lambda>(all_sid, rsm).
        err_bind (py_index rank_ids 0) (\<lambda>first_id.
        let first_taxon = split_rank_uid first_id 0;
            merge_lvl = lowest_assigned_rank_level first_taxon
        in err_bind (py_index first_taxon merge_lvl) (\<lambda>name.
        let new_name = name_prefix @ name;
            new_rank = py_slice_to first_taxon merge_lvl @ [new_name];
            new_rank_id = get_rank_uid new_rank (-1)
        in Inr (st\<lparr>rank_seqs_map := dict_set rsm new_rank_id all_sid,
                   seq_ranks_map := fold (\<lambda>sid m. dict_set m sid new_rank) all_sid
                                      (seq_ranks_map st)\<rparr>,
                Some new_rank_id)))))"

text \<open>
  \<open>check_for_disbalance\<close>. The three queues of the autofix branch, filled by the loop
  over \<open>range(1, len(ranks))\<close>.
\<close>

definition py_endswith :: "string \<Rightarrow> string \<Rightarrow> bool" where
  "py_endswith s suf = suffix suf s"

definition queue_step ::
  "string list \<Rightarrow> nat \<Rightarrow> nat list \<times> nat list \<times> nat list \<Rightarrow> nat list \<times> nat list \<times> nat list" where
  "queue_step ranks i q =
     (case q of (dropq, keepq, restq) \<Rightarrow>
        if py_endswith (ranks ! i) ''dae'' \<or> py_endswith (ranks ! i) ''neae''
        then (dropq @ [i], keepq, restq)
        else if py_endswith (ranks ! i) ''ceae'' \<or> py_endswith (ranks ! i) ''ales''
        then (dropq, keepq @ [i], restq)
        else (dropq, keepq, restq @ [i]))"

definition to_remove :: "string list \<Rightarrow> nat list" where
  "to_remove ranks =
     (case fold (queue_step ranks) [1..<length ranks] ([], [], []) of
        (dropq, keepq, restq) \<Rightarrow> take (length ranks - 7) (dropq @ restq @ keepq))"

definition new_ranks :: "string list \<Rightarrow> string list" where
  "new_ranks ranks =
     map (\<lambda>i. ranks ! i) (filter (\<lambda>i. i \<notin> set (to_remove ranks)) [0..<length ranks])"

text \<open>
  An error record is the tuple of strings the source builds, as a list:
  \<open>(sid, orig_name, new_name)\<close> with autofix and \<open>(sid, name)\<close> without. Both names are
  \<open>self.lineage_str(sid)\<close>, the identifier run through \<open>lineage_str\<close>. The loop only
  rebinds the entry it is visiting, so it runs over the entries as they were.
\<close>

definition disbalance_step ::
  "bool \<Rightarrow> string \<times> string list \<Rightarrow> (string \<times> string list) list \<times> string list list
     \<Rightarrow> (string \<times> string list) list \<times> string list list" where
  "disbalance_step autofix item acc =
     (case (item, acc) of ((sid, ranks), (m, errs)) \<Rightarrow>
        if length ranks > 7 then
          (if autofix
           then (dict_set m sid (new_ranks ranks),
                 errs @ [[sid, lineage_str_of_sid sid, lineage_str_of_sid sid]])
           else (m, errs @ [[sid, lineage_str_of_sid sid]]))
        else (m, errs))"

definition check_for_disbalance :: "taxonomy \<Rightarrow> bool \<Rightarrow> taxonomy \<times> string list list" where
  "check_for_disbalance st autofix =
     (case fold (disbalance_step autofix) (seq_ranks_map st) (seq_ranks_map st, []) of
        (m, errs) \<Rightarrow> (st\<lparr>seq_ranks_map := m\<rparr>, errs))"

section \<open>close_taxonomy_gaps\<close>

text \<open>\<open>"%d" % n\<close> for a count: the decimal digits of \<open>n\<close>.\<close>

definition digit_char :: "nat \<Rightarrow> char" where
  "digit_char d = char_of (48 + d)"

function str_nat :: "nat \<Rightarrow> string" where
  "str_nat n = (if n < 10 then [digit_char n] else str_nat (n div 10) @ [digit_char (n mod 10)])"
  by pat_completeness auto
termination
  by (relation "measure id") auto

declare str_nat.simps [simp del]

text \<open>
  The body of the inner loop at position \<open>i\<close>, on the loop variables \<open>last_rank\<close> (None
  until a name has been seen), \<open>gap_count\<close> and the path. \<open>elif last_rank:\<close> tests the
  truth value of \<open>last_rank\<close>: None and the empty string both fail it.
\<close>

definition gap_step ::
  "nat \<Rightarrow> string option \<times> nat \<times> string list \<Rightarrow> string option \<times> nat \<times> string list" where
  "gap_step i s =
     (case s of (last_rank, gap_count, ranks) \<Rightarrow>
        if ranks ! i \<noteq> EMPTY_RANK then (Some (ranks ! i), gap_count, ranks)
        else (case last_rank of
                None \<Rightarrow> (last_rank, gap_count, ranks)
              | Some l \<Rightarrow>
                  if l \<noteq> []
                  then (last_rank, gap_count + 1,
                        ranks[i := ''parent'' @ str_nat (gap_count + 1) @ ''_'' @ l])
                  else (last_rank, gap_count, ranks)))"

text \<open>The inner loop runs over \<open>reversed(range(1, len(ranks)))\<close>.\<close>

definition close_gaps :: "string list \<Rightarrow> string list" where
  "close_gaps ranks =
     (case fold gap_step (rev [1..<length ranks]) (None, 0, ranks) of
        (last_rank, gap_count, ranks') \<Rightarrow> ranks')"

text \<open>The outer loop changes every path in place; the identifiers stay.\<close>

definition close_taxonomy_gaps :: "taxonomy \<Rightarrow> taxonomy" where
  "close_taxonomy_gaps st =
     st\<lparr>seq_ranks_map := map (\<lambda>(sid, ranks). (sid, close_gaps ranks)) (seq_ranks_map st)\<rparr>"

section \<open>check_for_duplicates\<close>

text \<open>
  The local variables of the call, with the store: \<open>parent_map\<close> (name to the identifier
  that was first seen with it), the report \<open>dups\<close>, and for autofix \<open>old_fixed\<close> and
  \<open>old_ranks\<close> (identifier to the positions already rewritten in its path). A record of
  the report is the tuple of strings the source builds, as a list. The lineages in a
  record are \<open>self.lineage_str\<close> of an identifier.
\<close>

record dup_state =
  tax :: taxonomy
  parent_map :: "(string \<times> string) list"
  dups :: "string list list"
  old_fixed :: "(string \<times> string) list"
  old_ranks :: "(string \<times> nat list) list"

text \<open>
  \<open>self.seq_ranks_map[sid][i] = v\<close> writes into the list object of \<open>sid\<close>; in the store of
  values the path of \<open>sid\<close> is replaced by the updated path.
\<close>

definition set_rank :: "dup_state \<Rightarrow> string \<Rightarrow> nat \<Rightarrow> string \<Rightarrow> py_error + dup_state" where
  "set_rank s sid i v =
     err_bind (dict_get (seq_ranks_map (tax s)) sid) (\<lambda>ranks.
     err_bind (py_index ranks (int i)) (\<lambda>old_value.
     Inr (s\<lparr>tax := (tax s)\<lparr>seq_ranks_map :=
                 dict_set (seq_ranks_map (tax s)) sid (ranks[i := v])\<rparr>\<rparr>)))"

text \<open>
  The autofix branch for a conflict at position \<open>i\<close> of \<open>sid\<close> against \<open>old_sid\<close>. The
  statement \<open>self.seq_ranks_map[old_sid][i] += "_" + self.seq_ranks_map[old_sid][i-1]\<close>
  reads both entries of the path of \<open>old_sid\<close> and writes position \<open>i\<close>; then position
  \<open>i\<close> of \<open>sid\<close> is read again and rewritten with the parent name read before.
\<close>

definition dup_fix :: "string \<Rightarrow> nat \<Rightarrow> string \<Rightarrow> string \<Rightarrow> dup_state \<Rightarrow> py_error + dup_state" where
  "dup_fix sid i parent old_sid s =
     (let s1 = (if map_of (old_fixed s) old_sid = None
                then s\<lparr>old_fixed := dict_set (old_fixed s) old_sid (lineage_str_of_sid old_sid),
                       old_ranks := dict_set (old_ranks s) old_sid []\<rparr>
                else s)
      in err_bind (dict_get (old_ranks s1) old_sid) (\<lambda>fixed.
         err_bind
           (if i \<notin> set fixed
            then err_bind (dict_get (seq_ranks_map (tax s1)) old_sid) (\<lambda>old.
                 err_bind (py_index old (int i)) (\<lambda>old_name.
                 err_bind (py_index old (int i - 1)) (\<lambda>old_parent.
                 err_bind (set_rank s1 old_sid i (old_name @ ''_'' @ old_parent)) (\<lambda>s'.
                 Inr (s'\<lparr>old_ranks := dict_set (old_ranks s') old_sid (fixed @ [i])\<rparr>)))))
            else Inr s1) (\<lambda>s2.
         err_bind (dict_get (seq_ranks_map (tax s2)) sid) (\<lambda>ranks.
         err_bind (py_index ranks (int i)) (\<lambda>name.
         err_bind (set_rank s2 sid i (name @ ''_'' @ parent)) (\<lambda>s3.
         Inr (s3\<lparr>dups := dups s3 @ [[old_sid, lineage_str_of_sid old_sid, sid,
                                       lineage_str_of_sid sid, lineage_str_of_sid sid]]\<rparr>)))))))"

text \<open>
  The body of the inner loop at position \<open>i\<close>, behind the test for the empty marker;
  \<open>ranks\<close> is the path of \<open>sid\<close> as it stands.
\<close>

definition dup_visit :: "bool \<Rightarrow> string \<Rightarrow> nat \<Rightarrow> string list \<Rightarrow> dup_state \<Rightarrow> py_error + dup_state" where
  "dup_visit autofix sid i ranks s =
     err_bind (py_index ranks (int i - 1)) (\<lambda>parent.
     err_bind (py_index ranks (int i)) (\<lambda>name.
     (case map_of (parent_map s) name of
        None \<Rightarrow> Inr (s\<lparr>parent_map := dict_set (parent_map s) name sid\<rparr>)
      | Some old_sid \<Rightarrow>
          err_bind (get_seq_ranks (tax s) old_sid) (\<lambda>old.
          err_bind (py_index old (int i - 1)) (\<lambda>old_parent.
          if old_parent \<noteq> parent then
            (if autofix then dup_fix sid i parent old_sid s
             else Inr (s\<lparr>dups := dups s @ [[old_sid, lineage_str_of_sid old_sid, sid,
                                              lineage_str_of_sid sid]]\<rparr>))
          else Inr s)))))"

text \<open>
  The inner loop over the positions \<open>range(1, len(ranks))\<close> of one sequence: it leaves
  at the first position that holds the empty marker.
\<close>

fun dup_scan :: "bool \<Rightarrow> string \<Rightarrow> nat list \<Rightarrow> dup_state \<Rightarrow> py_error + dup_state" where
  "dup_scan autofix sid [] s = Inr s"
| "dup_scan autofix sid (i # rest) s =
     err_bind (dict_get (seq_ranks_map (tax s)) sid) (\<lambda>ranks.
     err_bind (py_index ranks (int i)) (\<lambda>name.
       if name = EMPTY_RANK then Inr s
       else err_bind (dup_visit autofix sid i ranks s) (\<lambda>s'. dup_scan autofix sid rest s')))"

text \<open>The outer loop over the entries of the forward map, in its order.\<close>

fun dup_outer :: "bool \<Rightarrow> string list \<Rightarrow> dup_state \<Rightarrow> py_error + dup_state" where
  "dup_outer autofix [] s = Inr s"
| "dup_outer autofix (sid # sids) s =
     err_bind (dict_get (seq_ranks_map (tax s)) sid) (\<lambda>ranks.
     err_bind (dup_scan autofix sid [1..<length ranks] s) (\<lambda>s'. dup_outer autofix sids s'))"

definition check_for_duplicates :: "taxonomy \<Rightarrow> bool \<Rightarrow> py_error + (taxonomy \<times> string list list)" where
  "check_for_duplicates st autofix =
     err_bind (dup_outer autofix (map fst (seq_ranks_map st))
                 \<lparr>tax = st, parent_map = [], dups = [], old_fixed = [], old_ranks = []\<rparr>) (\<lambda>s.
     Inr (tax s,
          if autofix
          then dups s @ map (\<lambda>(sid, orig_name).
                 [sid, orig_name, sid, orig_name, lineage_str_of_sid sid]) (old_fixed s)
          else dups s))"

section \<open>class TaxCode\<close>

text \<open>
  An entry of a code table is a pair \<open>(suffix, exact_match)\<close> of Python expressions. A
  parenthesised string such as \<open>("idae")\<close> is a string, not a tuple, so a component is
  either a string or a tuple of strings. \<open>name.endswith(x)\<close> takes either; \<open>name in x\<close>
  is membership for a tuple and the substring test for a string.
\<close>

datatype pyseq = Str string | Tup "string list"

definition py_endswith_seq :: "string \<Rightarrow> pyseq \<Rightarrow> bool" where
  "py_endswith_seq name x =
     (case x of Str s \<Rightarrow> suffix s name | Tup ss \<Rightarrow> list_ex (\<lambda>s. suffix s name) ss)"

definition py_in :: "string \<Rightarrow> pyseq \<Rightarrow> bool" where
  "py_in name x = (case x of Str s \<Rightarrow> sublist name s | Tup ss \<Rightarrow> name \<in> set ss)"

text \<open>A dictionary display: a key written twice keeps its last value.\<close>

definition py_dict :: "('k \<times> 'v) list \<Rightarrow> ('k \<times> 'v) list" where
  "py_dict entries = fold (\<lambda>(k, v) d. dict_set d k v) entries []"

type_synonym tax_code = "(nat \<times> pyseq \<times> pyseq) list"

definition STD_RANKS :: "nat list" where
  "STD_RANKS = [1, 2, 4, 7, 12, 18, 19]"

definition BAC_TAX_CODE :: tax_code where
  "BAC_TAX_CODE = py_dict
     [(1, Tup [], Tup [''bacteria'', ''archaea'']),
      (2, Tup [], Tup []),
      (4, Tup [], Tup []),
      (5, Str ''idae'', Tup []),
      (7, Str ''ales'', Tup []),
      (8, Str ''ineae'', Tup []),
      (12, Str ''aceae'', Tup []),
      (13, Str ''oideae'', Tup []),
      (18, Tup [], Tup []),
      (19, Tup [], Tup []),
      (20, Tup [], Tup []),
      (21, Tup [], Tup []),
      (22, Tup [], Tup [])]"

definition BOT_TAX_CODE :: tax_code where
  "BOT_TAX_CODE = py_dict
     [(1, Tup [], Tup [''plantae'', ''algae'', ''fungi'']),
      (2, Tup [''phyta'', ''phycota'', ''mycota''], Tup []),
      (3, Tup [''phytina'', ''phycotina'', ''mycotina''], Tup []),
      (4, Tup [''opsida'', ''phyceae'', ''mycetes''], Tup []),
      (5, Tup [''idae'', ''phycidae'', ''mycetidae''], Tup []),
      (6, Str ''anae'', Tup []),
      (7, Str ''ales'', Tup []),
      (8, Str ''ineae'', Tup []),
      (9, Str ''aria'', Tup []),
      (10, Str ''acea'', Tup []),
      (12, Str ''aceae'', Tup []),
      (13, Str ''oideae'', Tup []),
      (15, Str ''eae'', Tup []),
      (16, Str ''inae'', Tup []),
      (18, Tup [], Tup []),
      (19, Tup [], Tup []),
      (20, Tup [], Tup []),
      (21, Tup [], Tup []),
      (22, Tup [], Tup [])]"

definition ZOO_TAX_CODE :: tax_code where
  "ZOO_TAX_CODE = py_dict
     [(1, Tup [], Str ''animalia''),
      (2, Tup [], Tup [''chordata'', ''arthropoda'', ''mollusca'', ''nematoda'']),
      (3, Tup [], Tup [''vertebrata'', ''myriapoda'', ''crustacea'', ''hexapoda'']),
      (4, Tup [], Tup [''mammalia'', ''aves'', ''reptilia'', ''amphibia'', ''insecta'']),
      (5, Tup [], Tup []),
      (6, Tup [], Tup []),
      (7, Tup [], Tup []),
      (8, Tup [], Tup []),
      (9, Tup [], Tup []),
      (10, Str ''oidea'', Tup []),
      (11, Str ''oidae'', Tup []),
      (12, Str ''idae'', Tup []),
      (13, Str ''inae'', Tup []),
      (13, Str ''odd'', Tup []),
      (15, Str ''ini'', Tup []),
      (16, Str ''ina'', Tup []),
      (17, Tup [''ad'', ''iti''], Tup []),
      (18, Tup [], Tup []),
      (19, Tup [], Tup []),
      (20, Tup [], Tup []),
      (21, Tup [], Tup []),
      (22, Tup [], Tup [])]"

definition VIR_TAX_CODE :: tax_code where
  "VIR_TAX_CODE = py_dict
     [(1, Tup [], Str ''viruses''),
      (4, Tup [], Tup []),
      (5, Str ''idae'', Tup []),
      (7, Str ''virales'', Tup []),
      (12, Str ''viridae'', Tup []),
      (13, Str ''virinae'', Tup []),
      (18, Str ''virus'', Tup []),
      (19, Str '' virus'', Tup []),
      (21, Tup [], Tup []),
      (22, Tup [], Tup [])]"

text \<open>
  \<open>re.sub("[\W_]+", "", name.lower())\<close> on a byte string: upper-case ASCII letters are
  lowered, then every character that is not an ASCII letter or digit is dropped.
\<close>

definition py_lower_char :: "char \<Rightarrow> char" where
  "py_lower_char c =
     (if 65 \<le> (of_char c :: nat) \<and> (of_char c :: nat) \<le> 90 then char_of (of_char c + 32 :: nat) else c)"

definition is_alnum :: "char \<Rightarrow> bool" where
  "is_alnum c \<longleftrightarrow>
     (let n = (of_char c :: nat)
      in (48 \<le> n \<and> n \<le> 57) \<or> (65 \<le> n \<and> n \<le> 90) \<or> (97 \<le> n \<and> n \<le> 122))"

definition normalize_name :: "string \<Rightarrow> string" where
  "normalize_name name = filter is_alnum (map py_lower_char name)"

text \<open>The first loop: the first level, in the order given, whose entry accepts the name.\<close>

fun first_match :: "tax_code \<Rightarrow> string \<Rightarrow> nat list \<Rightarrow> py_error + nat" where
  "first_match tc rank_name [] = Inr 0"
| "first_match tc rank_name (lvl # lvls) =
     err_bind (dict_get tc lvl) (\<lambda>(suffix, exact_match).
       if py_endswith_seq rank_name suffix \<or> py_in rank_name exact_match then Inr lvl
       else first_match tc rank_name lvls)"

text \<open>\<open>xs.index(x)\<close>: the first position of \<open>x\<close>, ValueError when it is absent.\<close>

fun py_list_index :: "'a list \<Rightarrow> 'a \<Rightarrow> py_error + nat" where
  "py_list_index [] x = Inl ValueError"
| "py_list_index (y # ys) x =
     (if y = x then Inr 0 else err_bind (py_list_index ys x) (\<lambda>i. Inr (Suc i)))"

text \<open>The second loop: the first standard rank behind position \<open>idx\<close>, 0 when there is none.\<close>

definition next_std_level :: "nat list \<Rightarrow> nat \<Rightarrow> nat" where
  "next_std_level sorted_tax_levels idx =
     (case find (\<lambda>lvl. lvl \<in> set STD_RANKS) (drop (idx + 1) sorted_tax_levels) of
        None \<Rightarrow> 0 | Some lvl \<Rightarrow> lvl)"

text \<open>
  \<open>guess_rank_level\<close>. \<open>ranks[rank_level]\<close> raises IndexError outside
  \<open>-len(ranks) .. len(ranks)-1\<close>; a negative position inside counts from the end.
\<close>

function guess_rank_level :: "tax_code \<Rightarrow> string list \<Rightarrow> int \<Rightarrow> py_error + nat" where
  "guess_rank_level tc ranks rank_level =
     (if rank_level < - int (length ranks) \<or> int (length ranks) \<le> rank_level then Inl IndexError
      else
        err_bind (py_index ranks rank_level) (\<lambda>raw_name.
        let rank_name = normalize_name raw_name;
            sorted_tax_levels = sort (map fst tc)
        in err_bind (first_match tc rank_name sorted_tax_levels) (\<lambda>real_level.
           if real_level = 0 then
             (if rank_level = 0 then Inr 1
              else
                (case guess_rank_level tc ranks (rank_level - 1) of
                   Inl e \<Rightarrow> Inl e
                 | Inr parent_level \<Rightarrow>
                     if parent_level = 0 then Inr 0
                     else err_bind (py_list_index sorted_tax_levels parent_level) (\<lambda>idx.
                            Inr (next_std_level sorted_tax_levels idx))))
           else Inr real_level)))"
  by pat_completeness auto
termination
  by (relation "measure (\<lambda>(tc, ranks, rank_level). nat (rank_level + int (length ranks) + 1))") auto

declare guess_rank_level.simps [simp del]

section \<open>class TaxTreeBuilder\<close>

text \<open>
  The tree is the ete2 tree the builder grows: a node is its name and the index of its
  parent, node 0 is the root, and \<open>add_child\<close> appends a node. The builder holds
  \<open>tree_nodes\<close> (name to node), \<open>leaf_count\<close> and, for the run of \<open>build\<close>, the tree and
  the list \<open>seq_ids\<close>. The final \<open>prune_unifu_nodes\<close> pass belongs to ete2 (\<open>traverse\<close>,
  \<open>delete\<close>) and only removes nodes; the tree here is the tree before that pass.
\<close>

definition ROOT_LABEL :: string where
  "ROOT_LABEL = ''<<root>>''"

record builder =
  tree_nodes :: "(string \<times> nat) list"
  leaf_count :: "(string \<times> int) list"
  nodes :: "(string \<times> nat option) list"
  seq_ids :: "string list"

definition add_child :: "builder \<Rightarrow> nat \<Rightarrow> string \<Rightarrow> builder \<times> nat" where
  "add_child b parentNode nodeId =
     (b\<lparr>nodes := nodes b @ [(nodeId, Some parentNode)]\<rparr>, length (nodes b))"

text \<open>
  \<open>while ranks[parent_level] == EMPTY_RANK: parent_level -= 1\<close>. The loop ends with
  IndexError when it runs below \<open>-len(ranks)\<close>.
\<close>

function skip_empty :: "string list \<Rightarrow> int \<Rightarrow> py_error + int" where
  "skip_empty ranks parent_level =
     (if parent_level < - int (length ranks) \<or> int (length ranks) \<le> parent_level
      then Inl IndexError
      else if py_index ranks parent_level = Inr EMPTY_RANK
           then skip_empty ranks (parent_level - 1)
           else Inr parent_level)"
  by pat_completeness auto
termination
  by (relation "measure (\<lambda>(ranks, parent_level). nat (parent_level + int (length ranks) + 1))") auto

declare skip_empty.simps [simp del]

lemma skip_empty_le: "skip_empty ranks rank_level = Inr parent_level \<Longrightarrow> parent_level \<le> rank_level"
proof (induction ranks rank_level rule: skip_empty.induct)
  case (1 ranks pl)
  then show ?case
    by (subst (asm) (2) skip_empty.simps) (auto split: if_splits)
qed

text \<open>
  \<open>add_tree_node\<close>. With \<open>rank_level >= 0\<close> the parent is the node of the nearest
  assigned level at or above \<open>rank_level\<close>; otherwise it is the root. A parent that is
  not yet in \<open>tree_nodes\<close> is created by the recursive call and memoized. With a negative
  level the parent is the root label: were it missing from \<open>tree_nodes\<close>, the source would
  call itself without end (RuntimeError for the recursion depth).
\<close>

function add_tree_node :: "builder \<Rightarrow> string \<Rightarrow> string list \<Rightarrow> int \<Rightarrow> py_error + (builder \<times> nat)" where
  "add_tree_node b nodeId ranks rank_level =
     (if 0 \<le> rank_level then
        (case skip_empty ranks rank_level of
           Inl e \<Rightarrow> Inl e
         | Inr parent_level \<Rightarrow>
             (case map_of (tree_nodes b) (get_rank_uid ranks parent_level) of
                Some parentNode \<Rightarrow> Inr (add_child b parentNode nodeId)
              | None \<Rightarrow>
                  (case add_tree_node b (get_rank_uid ranks parent_level) ranks (parent_level - 1) of
                     Inl e \<Rightarrow> Inl e
                   | Inr (b1, parentNode) \<Rightarrow>
                       Inr (add_child
                              (b1\<lparr>tree_nodes := dict_set (tree_nodes b1)
                                                  (get_rank_uid ranks parent_level) parentNode\<rparr>)
                              parentNode nodeId))))
      else
        (case map_of (tree_nodes b) ROOT_LABEL of
           Some parentNode \<Rightarrow> Inr (add_child b parentNode nodeId)
         | None \<Rightarrow> Inl RecursionError))"
  by pat_completeness auto
termination
  by (relation "measure (\<lambda>(b, nodeId, ranks, rank_level). nat (rank_level + 1))")
     (auto dest: skip_empty_le)

declare add_tree_node.simps [simp del]

text \<open>
  The two filter loops of \<open>build\<close>: does some entry \<open>(rank_level, rank_name)\<close> of the list
  name the rank the path has at that level? The loop leaves at the first hit.
\<close>

fun clade_matches :: "string list \<Rightarrow> (int \<times> string) list \<Rightarrow> py_error + bool" where
  "clade_matches ranks [] = Inr False"
| "clade_matches ranks ((rank_level, rank_name) # clades) =
     err_bind (py_index ranks rank_level) (\<lambda>v.
       if v = rank_name then Inr True else clade_matches ranks clades)"

text \<open>
  The loop body of \<open>build\<close> for one entry, in its three parts: the clade filters
  (\<open>clade_is_ok\<close>), the quota test with the insertion of the leaf, and the whole body
  with the minimum-rank filter in front.
\<close>

definition clade_is_ok ::
  "string list \<Rightarrow> (int \<times> string) list \<Rightarrow> (int \<times> string) list \<Rightarrow> py_error + bool" where
  "clade_is_ok ranks clades_to_include clades_to_ignore =
     err_bind (if clades_to_include \<noteq> [] then clade_matches ranks clades_to_include
               else Inr True) (\<lambda>included.
     if included
     then err_bind (clade_matches ranks clades_to_ignore) (\<lambda>ignored. Inr (\<not> ignored))
     else Inr False)"

definition place_leaf ::
  "int \<Rightarrow> builder \<Rightarrow> string \<Rightarrow> string list \<Rightarrow> int \<Rightarrow> py_error + builder" where
  "place_leaf max_seqs_per_leaf b sid ranks parent_level =
     (let parent_name = get_rank_uid ranks parent_level
      in if map_of (tree_nodes b) parent_name \<noteq> None \<and>
            parent_level = int (length ranks) - 1 \<and>
            (case map_of (leaf_count b) parent_name of
               None \<Rightarrow> False | Some c \<Rightarrow> max_seqs_per_leaf \<le> c)
         then Inr b
         else
           err_bind (add_tree_node
                       (b\<lparr>leaf_count := dict_set (leaf_count b) parent_name
                             (dict_get_default (leaf_count b) parent_name 0 + 1)\<rparr>)
                       sid ranks parent_level) (\<lambda>(b', newNode).
           Inr (b'\<lparr>seq_ids := seq_ids b' @ [sid]\<rparr>)))"

definition build_step ::
  "int \<Rightarrow> int \<Rightarrow> (int \<times> string) list \<Rightarrow> (int \<times> string) list \<Rightarrow> builder
     \<Rightarrow> string \<times> string list \<Rightarrow> py_error + builder" where
  "build_step min_rank max_seqs_per_leaf clades_to_include clades_to_ignore b item =
     (case item of (sid, ranks) \<Rightarrow>
     err_bind (py_index ranks min_rank) (\<lambda>v.
     if v = EMPTY_RANK then Inr b
     else
     err_bind (clade_is_ok ranks clades_to_include clades_to_ignore) (\<lambda>ok.
     if \<not> ok then Inr b
     else
     err_bind (skip_empty ranks (int (length ranks) - 1)) (\<lambda>parent_level.
     place_leaf max_seqs_per_leaf b sid ranks parent_level))))"

fun build_loop ::
  "int \<Rightarrow> int \<Rightarrow> (int \<times> string) list \<Rightarrow> (int \<times> string) list \<Rightarrow> (string \<times> string list) list
     \<Rightarrow> builder \<Rightarrow> py_error + builder" where
  "build_loop min_rank max_seqs clades_to_include clades_to_ignore [] b = Inr b"
| "build_loop min_rank max_seqs clades_to_include clades_to_ignore (item # items) b =
     err_bind (build_step min_rank max_seqs clades_to_include clades_to_ignore b item)
       (build_loop min_rank max_seqs clades_to_include clades_to_ignore items)"

definition build_init :: builder where
  "build_init =
     \<lparr>tree_nodes = [(ROOT_LABEL, 0)], leaf_count = [(ROOT_LABEL, 0)],
      nodes = [(ROOT_LABEL, None)], seq_ids = []\<rparr>"

text \<open>
  \<open>build\<close> on a fresh builder: the root is registered with leaf count 0, then the
  sequences of the store are visited in the dict's iteration order. The returned tree
  is given as the list \<open>nodes\<close> of (name, parent) pairs in creation order.
  \<open>prune_unifu_nodes\<close> runs on the tree afterwards and only deletes inner nodes with
  a single child; it adds no node and does not touch \<open>seq_ids\<close>, and is not part of
  this model.
\<close>

definition build ::
  "taxonomy \<Rightarrow> int \<Rightarrow> int \<Rightarrow> (int \<times> string) list \<Rightarrow> (int \<times> string) list
     \<Rightarrow> py_error + ((string \<times> nat option) list \<times> string list)" where
  "build taxonomy min_rank max_seqs_per_leaf clades_to_include clades_to_ignore =
     err_bind (build_loop min_rank max_seqs_per_leaf clades_to_include clades_to_ignore
                 (seq_ranks_map taxonomy) build_init) (\<lambda>b.
     Inr (nodes b, seq_ids b))"

section \<open>Notions of the specification\<close>

text \<open>
  The non-empty prefix of a RankPath: the entries up to and including its lowest
  assigned level.
\<close>

definition non_empty_prefix :: "string list \<Rightarrow> string list" where
  "non_empty_prefix p = take (nat (lowest_assigned_rank_level p + 1)) p"

text \<open>
  Names that survive the delimiter: none contains \<open>@@\<close>, and none but the last ends
  with \<open>@\<close> (its \<open>@\<close> would run into the delimiter behind it).
\<close>

definition uid_safe :: "string list \<Rightarrow> bool" where
  "uid_safe xs \<longleftrightarrow> (\<forall>x \<in> set xs. \<not> sublist RANK_UID_DELIM x) \<and>
     (\<forall>x \<in> set (butlast xs). x = [] \<or> last x \<noteq> CHR ''@'')"

text \<open>
  The priority class of a name in the disbalance repair: drop-candidates first, then
  the remainder, then keep-candidates. Position \<open>i\<close> goes before position \<open>j\<close> when its
  class is lower, or the classes agree and \<open>i\<close> is the smaller position.
\<close>

definition rank_priority :: "string \<Rightarrow> nat" where
  "rank_priority name =
     (if py_endswith name ''dae'' \<or> py_endswith name ''neae'' then 0
      else if py_endswith name ''ceae'' \<or> py_endswith name ''ales'' then 2
      else 1)"

definition removed_before :: "string list \<Rightarrow> nat \<Rightarrow> nat \<Rightarrow> bool" where
  "removed_before ranks i j \<longleftrightarrow>
     rank_priority (ranks ! i) < rank_priority (ranks ! j) \<or>
     (rank_priority (ranks ! i) = rank_priority (ranks ! j) \<and> i < j)"

definition removal_order :: "string list \<Rightarrow> nat list" where
  "removal_order ranks =
     filter (\<lambda>i. rank_priority (ranks ! i) = 0) [1..<length ranks] @
     filter (\<lambda>i. rank_priority (ranks ! i) = 1) [1..<length ranks] @
     filter (\<lambda>i. rank_priority (ranks ! i) = 2) [1..<length ranks]"

text \<open>The forward map after the repair loop has run over the entries \<open>xs\<close>.\<close>

definition fix_map ::
  "(string \<times> string list) list \<Rightarrow> (string \<times> string list) list \<Rightarrow> (string \<times> string list) list" where
  "fix_map xs m =
     fold (\<lambda>item m. if length (snd item) > 7
                     then dict_set m (fst item) (new_ranks (snd item)) else m) xs m"

text \<open>Example stores.\<close>

definition disbalance_example :: taxonomy where
  "disbalance_example =
     \<lparr>id_prefix = '''',
      seq_ranks_map =
        [(''s1'', [''Bacteria'', ''Firmicutes'', ''Clostridia'', ''Clostridiidae'',
                   ''Clostridiales'', ''Clostridiineae'', ''Lachnospiraceae'', ''Blautia'',
                   ''Blautia producta'']),
         (''s2'', [''Bacteria'', ''Firmicutes''])],
      rank_seqs_map = []\<rparr>"

text \<open>
  The path \<open>merge_ranks\<close> gives the merged group: the path of the first key up to its
  lowest assigned level, with the name at that level replaced by the prefix followed by
  that name.
\<close>

definition merged_path :: "string \<Rightarrow> string \<Rightarrow> string list" where
  "merged_path k name_prefix =
     (let p = split_rank_uid k 0; l = nat (lowest_assigned_rank_level p)
      in (take (Suc l) p)[l := name_prefix @ p ! l])"

text \<open>
  The reverse index partitions the identifiers: every identifier of the forward map is
  a member of exactly one group, and every member of a group is an identifier of the
  forward map.
\<close>

definition rank_index_partitions :: "taxonomy \<Rightarrow> bool" where
  "rank_index_partitions st \<longleftrightarrow>
     distinct (concat (map snd (rank_seqs_map st))) \<and>
     set (concat (map snd (rank_seqs_map st))) = set (map fst (seq_ranks_map st))"

definition merge_example :: taxonomy where
  "merge_example =
     \<lparr>id_prefix = '''',
      seq_ranks_map = [(''s1'', [''Bacteria'', ''Bacilli'']), (''s2'', [''Bacteria'', ''Clostridia'']),
                       (''s3'', [''Bacteria'', ''Clostridia''])],
      rank_seqs_map = [(''Bacteria@@Bacilli'', [''s1'']), (''Bacteria@@Clostridia'', [''s2'', ''s3''])]\<rparr>"

definition merge_clash_example :: taxonomy where
  "merge_clash_example =
     \<lparr>id_prefix = '''',
      seq_ranks_map = [(''s1'', [''A'']), (''s2'', [''XA''])],
      rank_seqs_map = [(''A'', [''s1'']), (''XA'', [''s2''])]\<rparr>"

definition rename_example :: taxonomy where
  "rename_example =
     \<lparr>id_prefix = '''',
      seq_ranks_map = [(''a'', [''Bacteria''])],
      rank_seqs_map = [(''Bacteria'', [''a''])]\<rparr>"

text \<open>
  Gap closing, read from the deep end of a list: \<open>fill xs\<close> is the state of the inner
  loop (\<open>last_rank\<close>, \<open>gap_count\<close>, the entries) once it has run over \<open>xs\<close>.
\<close>

definition fill_step ::
  "string \<Rightarrow> string option \<times> nat \<times> string list \<Rightarrow> string option \<times> nat \<times> string list" where
  "fill_step x s =
     (case s of (last_rank, g, ys) \<Rightarrow>
        if x \<noteq> EMPTY_RANK then (Some x, g, x # ys)
        else (case last_rank of
                None \<Rightarrow> (None, g, x # ys)
              | Some l \<Rightarrow>
                  if l \<noteq> [] then (Some l, g + 1, (''parent'' @ str_nat (g + 1) @ ''_'' @ l) # ys)
                  else (Some l, g, x # ys)))"

fun fill :: "string list \<Rightarrow> string option \<times> nat \<times> string list" where
  "fill [] = (None, 0, [])"
| "fill (x # xs) = fill_step x (fill xs)"

text \<open>
  What the specification says of a filled position \<open>i\<close>: the known name below it is the
  nearest entry deeper than \<open>i\<close> that is not the marker; its gap counter is the number of
  markers from \<open>i\<close> down to the lowest assigned level (the gaps the scan has met when it
  fills \<open>i\<close>); the synthesized name is \<open>parent\<close>, the counter, \<open>_\<close> and the known name.
\<close>

definition next_name :: "string list \<Rightarrow> nat \<Rightarrow> string option" where
  "next_name p i =
     (case filter (\<lambda>n. n \<noteq> EMPTY_RANK) (drop (Suc i) p) of [] \<Rightarrow> None | n # ns \<Rightarrow> Some n)"

definition gap_number :: "string list \<Rightarrow> nat \<Rightarrow> nat" where
  "gap_number p i = length (filter (\<lambda>n. n = EMPTY_RANK) (non_empty_prefix (drop i p)))"

definition synth_name :: "nat \<Rightarrow> string \<Rightarrow> string" where
  "synth_name k n = ''parent'' @ str_nat k @ ''_'' @ n"

definition filled_name :: "string list \<Rightarrow> nat \<Rightarrow> string" where
  "filled_name p i =
     (case next_name p i of None \<Rightarrow> EMPTY_RANK | Some n \<Rightarrow> synth_name (gap_number p i) n)"

definition gaps_example :: taxonomy where
  "gaps_example =
     \<lparr>id_prefix = '''',
      seq_ranks_map = [(''s1'', [''Bacteria'', ''-'', ''A'', ''-'', ''-'', ''B'', ''-''])],
      rank_seqs_map = [(''Bacteria@@-@@A@@-@@-@@B'', [''s1''])]\<rparr>"

definition gaps_empty_name_example :: taxonomy where
  "gaps_empty_name_example =
     \<lparr>id_prefix = '''',
      seq_ranks_map = [(''s1'', [''Bacteria'', ''-'', ''''])],
      rank_seqs_map = [(''Bacteria@@-@@'', [''s1''])]\<rparr>"

text \<open>
  Of every path of a forward map: its length and its entries at the positions from \<open>k\<close>
  on.
\<close>

definition paths_from :: "nat \<Rightarrow> (string \<times> string list) list \<Rightarrow> string \<Rightarrow> (nat \<times> string list) option" where
  "paths_from k m sid = map_option (\<lambda>r. (length r, drop k r)) (map_of m sid)"

text \<open>The state in which \<open>check_for_duplicates\<close> enters its loops.\<close>

definition dup_init :: "taxonomy \<Rightarrow> dup_state" where
  "dup_init st = \<lparr>tax = st, parent_map = [], dups = [], old_fixed = [], old_ranks = []\<rparr>"

definition scan_example :: taxonomy where
  "scan_example =
     \<lparr>id_prefix = '''',
      seq_ranks_map = [(''s1'', [''K'', ''A'', ''-'', ''P1'', ''X'']),
                       (''s2'', [''K'', ''A'', ''-'', ''P2'', ''X''])],
      rank_seqs_map = [(''K@@A@@-@@P1@@X'', [''s1'']), (''K@@A@@-@@P2@@X'', [''s2''])]\<rparr>"

definition root_marker_example :: taxonomy where
  "root_marker_example =
     \<lparr>id_prefix = '''',
      seq_ranks_map = [(''s1'', [''-'', ''P1'', ''X'']), (''s2'', [''-'', ''P2'', ''X''])],
      rank_seqs_map = [(''-@@P1@@X'', [''s1'']), (''-@@P2@@X'', [''s2''])]\<rparr>"

definition dup_index_error_example :: taxonomy where
  "dup_index_error_example =
     \<lparr>id_prefix = '''',
      seq_ranks_map = [(''a'', [''K'', ''X'']), (''b'', [''K'', ''P'', ''C'', ''X''])],
      rank_seqs_map = [(''K@@X'', [''a'']), (''K@@P@@C@@X'', [''b''])]\<rparr>"

text \<open>
  Rank-level guessing, in the words of the specification. The names of a table component
  as a set; a level matches a name when one of its suffixes ends the name or the name is
  one of its exact-match names.
\<close>

definition seq_names :: "pyseq \<Rightarrow> string list" where
  "seq_names x = (case x of Str s \<Rightarrow> [s] | Tup ss \<Rightarrow> ss)"

definition level_matches :: "tax_code \<Rightarrow> nat \<Rightarrow> string \<Rightarrow> bool" where
  "level_matches tc lvl name \<longleftrightarrow>
     (\<exists>sfx ex. map_of tc lvl = Some (sfx, ex) \<and>
        ((\<exists>s \<in> set (seq_names sfx). suffix s name) \<or> name \<in> set (seq_names ex)))"

text \<open>
  The name is no proper part of an exact-match entry that the table writes as a bare
  string (for such an entry the source tests for a substring).
\<close>

definition whole_exact_names :: "tax_code \<Rightarrow> string \<Rightarrow> bool" where
  "whole_exact_names tc name \<longleftrightarrow>
     (\<forall>lvl sfx s. map_of tc lvl = Some (sfx, Str s) \<and> sublist name s \<longrightarrow> name = s)"

text \<open>
  The smallest level of the table that is a standard rank above \<open>pl\<close> (0 when there is
  none), and the smallest standard rank above \<open>pl\<close> whatever the table holds.
\<close>

definition backbone_above :: "tax_code \<Rightarrow> nat \<Rightarrow> nat" where
  "backbone_above tc pl =
     (if \<exists>l \<in> fst ` set tc. l \<in> set STD_RANKS \<and> pl < l
      then Min {l \<in> fst ` set tc. l \<in> set STD_RANKS \<and> pl < l} else 0)"

text \<open>The test of the first loop for one level, as the source evaluates it.\<close>

definition entry_accepts :: "tax_code \<Rightarrow> string \<Rightarrow> nat \<Rightarrow> bool" where
  "entry_accepts tc name lvl \<longleftrightarrow>
     (\<exists>sfx ex. map_of tc lvl = Some (sfx, ex) \<and> (py_endswith_seq name sfx \<or> py_in name ex))"

definition std_above :: "nat \<Rightarrow> nat" where
  "std_above pl = (case find (\<lambda>l. pl < l) STD_RANKS of None \<Rightarrow> 0 | Some l \<Rightarrow> l)"

text \<open>
  The filters of \<open>TaxTreeBuilder.build\<close> on one RankPath: a non-empty entry at
  \<open>min_rank\<close>, a match with some entry of \<open>clades_to_include\<close> unless that list is empty,
  and no match with an entry of \<open>clades_to_ignore\<close>. Every index that is looked at
  has to exist.
\<close>

definition passes_filters :: "int \<Rightarrow> (int \<times> string) list \<Rightarrow> (int \<times> string) list \<Rightarrow> string list \<Rightarrow> bool" where
  "passes_filters min_rank clades_to_include clades_to_ignore ranks \<longleftrightarrow>
     (\<exists>v. py_index ranks min_rank = Inr v \<and> v \<noteq> EMPTY_RANK) \<and>
     (clades_to_include = [] \<or> (\<exists>(l, n) \<in> set clades_to_include. py_index ranks l = Inr n)) \<and>
     (\<forall>(l, n) \<in> set clades_to_ignore. py_index ranks l \<noteq> Inr n)"

text \<open>
  The leaf count of a parent has reached the quota.
\<close>

definition quota_reached :: "builder \<Rightarrow> int \<Rightarrow> string \<Rightarrow> bool" where
  "quota_reached b max_seqs_per_leaf parent_name \<longleftrightarrow>
     (\<exists>c. map_of (leaf_count b) parent_name = Some c \<and> max_seqs_per_leaf \<le> c)"

text \<open>
  Every node that has a leaf count is a known tree node. The loop of \<open>build\<close> keeps
  this, and it holds for the builder \<open>build\<close> starts from.
\<close>

definition counted_nodes_known :: "builder \<Rightarrow> bool" where
  "counted_nodes_known b \<longleftrightarrow>
     (\<forall>k. map_of (leaf_count b) k \<noteq> None \<longrightarrow> map_of (tree_nodes b) k \<noteq> None)"

text \<open>
  The effect of one run of the loop body that accepts the sequence: its identifier
  is appended to the result list, the leaf count of its parent goes up by one, no
  tree node is forgotten and the parent is a tree node afterwards.
\<close>

definition step_includes :: "builder \<Rightarrow> string \<Rightarrow> string \<Rightarrow> builder \<Rightarrow> bool" where
  "step_includes b sid parent_name b' \<longleftrightarrow>
     seq_ids b' = seq_ids b @ [sid] \<and>
     leaf_count b' = dict_set (leaf_count b) parent_name
                       (dict_get_default (leaf_count b) parent_name 0 + 1) \<and>
     (\<forall>k. map_of (tree_nodes b) k \<noteq> None \<longrightarrow> map_of (tree_nodes b') k \<noteq> None) \<and>
     map_of (tree_nodes b') parent_name \<noteq> None"

text \<open>
  A store with quota 1: \<open>b\<close> comes after \<open>a\<close> under the same parent and is dropped,
  \<open>c\<close> has a trailing empty level, so the quota is not applied to it.
\<close>

definition build_example :: taxonomy where
  "build_example =
     \<lparr>id_prefix = [],
      seq_ranks_map = [(''a'', [''K'', ''P'']), (''b'', [''K'', ''P'']),
                       (''c'', [''K'', ''P'', ''-'']), (''d'', [''K'', ''Q''])],
      rank_seqs_map = []\<rparr>"

definition build_example_after_a :: builder where
  "build_example_after_a =
     \<lparr>tree_nodes = [(''<<root>>'', 0), (''K'', 1), (''K@@P'', 2)],
      leaf_count = [(''<<root>>'', 0), (''K@@P'', 1)],
      nodes = [(''<<root>>'', None), (''K'', Some 0), (''K@@P'', Some 1), (''a'', Some 2)],
      seq_ids = [''a'']\<rparr>"








section \<open>Properties of the static helpers\<close>

lemma split_field_end:
  "\<not> sublist ''@@'' x \<Longrightarrow> py_split_acc ''@@'' cur x = [cur @ x]"
proof (induction x arbitrary: cur)
  case Nil
  show ?case by (subst py_split_acc.simps) simp
next
  case (Cons c x)
  have np: "\<not> prefix ''@@'' (c # x)"
    using Cons.prems by (meson prefix_imp_sublist)
  have ns: "\<not> sublist ''@@'' x"
    using Cons.prems by (meson sublist_Cons_right)
  show ?case
    by (subst py_split_acc.simps) (use np Cons.IH[OF ns] in simp)
qed

lemma split_field_delim:
  "\<not> sublist ''@@'' x \<Longrightarrow> x = [] \<or> last x \<noteq> CHR ''@'' \<Longrightarrow>
   py_split_acc ''@@'' cur (x @ ''@@'' @ rest) = (cur @ x) # py_split_acc ''@@'' [] rest"
proof (induction x arbitrary: cur)
  case Nil
  show ?case by (subst py_split_acc.simps) simp
next
  case (Cons c x)
  have ns: "\<not> sublist ''@@'' x"
    using Cons.prems(1) by (meson sublist_Cons_right)
  have np: "\<not> prefix ''@@'' ((c # x) @ ''@@'' @ rest)"
  proof (cases x)
    case Nil
    then show ?thesis using Cons.prems(2) by simp
  next
    case (Cons d y)
    have "\<not> prefix ''@@'' (c # d # y)"
      using Cons.prems(1) Cons by (meson prefix_imp_sublist)
    then show ?thesis using Cons by simp
  qed
  have le: "x = [] \<or> last x \<noteq> CHR ''@''"
    using Cons.prems(2) by (auto split: if_splits)
  show ?case
    by (subst py_split_acc.simps) (use np Cons.IH[OF ns le] in simp)
qed

lemma split_join:
  "xs \<noteq> [] \<Longrightarrow> \<forall>x \<in> set xs. \<not> sublist ''@@'' x \<Longrightarrow>
   \<forall>x \<in> set (butlast xs). x = [] \<or> last x \<noteq> CHR ''@'' \<Longrightarrow>
   py_split_acc ''@@'' [] (py_join ''@@'' xs) = xs"
proof (induction "''@@''" xs rule: py_join.induct)
  case 1
  then show ?case by simp
next
  case (2 x)
  then show ?case by (simp add: split_field_end)
next
  case (3 x y ys)
  have "py_split_acc ''@@'' [] (x @ ''@@'' @ py_join ''@@'' (y # ys))
        = ([] @ x) # py_split_acc ''@@'' [] (py_join ''@@'' (y # ys))"
    using 3(3,4) by (intro split_field_delim) auto
  moreover have "py_split_acc ''@@'' [] (py_join ''@@'' (y # ys)) = y # ys"
    using 3 by auto
  ultimately show ?case by simp
qed

lemma lowest_from_bounds: "- 1 \<le> lowest_from p n \<and> lowest_from p n < int n"
  by (induction n) auto

lemma lowest_from_nonempty:
  "0 \<le> lowest_from p n \<Longrightarrow> p ! nat (lowest_from p n) \<noteq> EMPTY_RANK"
  by (induction n) auto

lemma lowest_from_above:
  "lowest_from p n < int i \<Longrightarrow> i < n \<Longrightarrow> p ! i = EMPTY_RANK"
  by (induction n) (auto split: if_splits simp: less_Suc_eq)

text \<open>
  C5 (amended): for a RankPath \<open>p\<close> with at least one assigned level whose names survive
  the delimiter, \<open>split_rank_uid(get_rank_uid(p))\<close> is the non-empty prefix of \<open>p\<close>. For a
  path that is empty throughout, the key is the empty string and splitting it gives the
  one-element list holding the empty string, not the empty prefix.
\<close>

theorem C5_roundtrip:
  "(0 \<le> lowest_assigned_rank_level p \<and> uid_safe (non_empty_prefix p)
      \<longrightarrow> split_rank_uid (get_rank_uid p (-1)) 0 = non_empty_prefix p) \<and>
   (lowest_assigned_rank_level p = -1
      \<longrightarrow> split_rank_uid (get_rank_uid p (-1)) 0 = [''''])"
proof (intro conjI impI)
  assume a: "0 \<le> lowest_assigned_rank_level p \<and> uid_safe (non_empty_prefix p)"
  have ne: "non_empty_prefix p \<noteq> []"
    using a lowest_from_bounds[of p "length p"]
    by (auto simp: non_empty_prefix_def lowest_assigned_rank_level_def)
  have "get_rank_uid p (-1) = py_join ''@@'' (non_empty_prefix p)"
    using a by (simp add: get_rank_uid_def py_slice_to_def non_empty_prefix_def RANK_UID_DELIM_def)
  moreover have "py_split_acc ''@@'' [] (py_join ''@@'' (non_empty_prefix p)) = non_empty_prefix p"
    using a ne by (intro split_join) (auto simp: uid_safe_def RANK_UID_DELIM_def)
  ultimately show "split_rank_uid (get_rank_uid p (-1)) 0 = non_empty_prefix p"
    by (simp add: split_rank_uid_def py_split_def RANK_UID_DELIM_def)
next
  assume "lowest_assigned_rank_level p = -1"
  then have "get_rank_uid p (-1) = []"
    by (simp add: get_rank_uid_def py_slice_to_def)
  moreover have "py_split_acc ''@@'' [] [] = [[]]"
    by (subst py_split_acc.simps) simp
  ultimately show "split_rank_uid (get_rank_uid p (-1)) 0 = ['''']"
    by (simp add: split_rank_uid_def py_split_def RANK_UID_DELIM_def)
qed

theorem C5_roundtrip_witness:
  "split_rank_uid (get_rank_uid [''Bacteria'', ''Firmicutes'', ''-''] (-1)) 0
     = [''Bacteria'', ''Firmicutes''] \<and>
   split_rank_uid (get_rank_uid [''-'', ''-''] (-1)) 0 = ['''']"
proof -
  have l1: "lowest_assigned_rank_level [''Bacteria'', ''Firmicutes'', ''-''] = 1"
    by (simp add: lowest_assigned_rank_level_def EMPTY_RANK_def)
  have n1: "non_empty_prefix [''Bacteria'', ''Firmicutes'', ''-''] = [''Bacteria'', ''Firmicutes'']"
    by (simp add: non_empty_prefix_def l1)
  have s1: "uid_safe [''Bacteria'', ''Firmicutes'']"
    by (simp add: uid_safe_def RANK_UID_DELIM_def sublist_Cons_right)
  have l2: "lowest_assigned_rank_level [''-'', ''-''] = -1"
    by (simp add: lowest_assigned_rank_level_def EMPTY_RANK_def)
  show ?thesis
    using C5_roundtrip[of "[''Bacteria'', ''Firmicutes'', ''-'']"] C5_roundtrip[of "[''-'', ''-'']"]
    by (simp add: l1 n1 s1 l2)
qed

text \<open>
  The claim as stated fails on a path that is empty throughout: the round trip yields
  \<open>['''']\<close> where the non-empty prefix is \<open>[]\<close>.
\<close>

theorem C5_roundtrip_empty_path_counterexample:
  "split_rank_uid (get_rank_uid [''-'', ''-''] (-1)) 0 = [''''] \<and>
   non_empty_prefix [''-'', ''-''] = [] \<and>
   split_rank_uid (get_rank_uid [''-'', ''-''] (-1)) 0 \<noteq> non_empty_prefix [''-'', ''-'']"
proof -
  have l2: "lowest_assigned_rank_level [''-'', ''-''] = -1"
    by (simp add: lowest_assigned_rank_level_def EMPTY_RANK_def)
  have "py_split_acc ''@@'' [] [] = [[]]"
    by (subst py_split_acc.simps) simp
  then show ?thesis
    by (simp add: l2 non_empty_prefix_def get_rank_uid_def py_slice_to_def split_rank_uid_def
        py_split_def RANK_UID_DELIM_def)
qed

section \<open>check_for_disbalance\<close>

lemma fold_queue_step:
  "fold (queue_step ranks) js (dq, kq, rq) =
     (dq @ filter (\<lambda>i. rank_priority (ranks ! i) = 0) js,
      kq @ filter (\<lambda>i. rank_priority (ranks ! i) = 2) js,
      rq @ filter (\<lambda>i. rank_priority (ranks ! i) = 1) js)"
  by (induction js arbitrary: dq kq rq) (auto simp: queue_step_def rank_priority_def)

lemma to_remove_eq: "to_remove ranks = take (length ranks - 7) (removal_order ranks)"
  by (simp add: to_remove_def fold_queue_step removal_order_def)

lemma rank_priority_cases: "rank_priority n = 0 \<or> rank_priority n = 1 \<or> rank_priority n = 2"
  by (simp add: rank_priority_def)

lemma set_removal_order: "set (removal_order ranks) = {1..<length ranks}"
proof -
  have "rank_priority (ranks ! i) = 0 \<or> rank_priority (ranks ! i) = 1 \<or> rank_priority (ranks ! i) = 2" for i
    by (rule rank_priority_cases)
  then show ?thesis
    unfolding removal_order_def by fastforce
qed

lemma distinct_removal_order: "distinct (removal_order ranks)"
  by (auto simp: removal_order_def)

lemma sorted_filter_upt: "sorted_wrt (<) (filter P [a..<b])"
  by (simp add: sorted_wrt_filter)

lemma sorted_removal_order: "sorted_wrt (removed_before ranks) (removal_order ranks)"
  unfolding removal_order_def sorted_wrt_append
  apply (intro conjI)
  subgoal by (rule sorted_wrt_mono_rel[OF _ sorted_filter_upt]) (auto simp: removed_before_def)
  subgoal by (rule sorted_wrt_mono_rel[OF _ sorted_filter_upt]) (auto simp: removed_before_def)
  subgoal by (rule sorted_wrt_mono_rel[OF _ sorted_filter_upt]) (auto simp: removed_before_def)
  subgoal by (auto simp: removed_before_def)
  subgoal by (auto simp: removed_before_def)
  done

lemma length_removal_order: "length (removal_order ranks) = length ranks - 1"
proof -
  have "length (removal_order ranks) = card (set (removal_order ranks))"
    using distinct_removal_order by (simp add: distinct_card)
  then show ?thesis by (simp add: set_removal_order)
qed

lemma map_nth_filter_nths:
  "map ((!) xs) (filter P [0..<length xs]) = nths xs {i. P i}"
proof (induction xs rule: rev_induct)
  case Nil
  then show ?case by simp
next
  case (snoc x xs)
  have "map ((!) (xs @ [x])) (filter P [0..<length xs]) = map ((!) xs) (filter P [0..<length xs])"
    by (rule map_cong) (auto simp: nth_append)
  then show ?case using snoc by (simp add: nths_append)
qed

lemma sorted_wrt_take_drop:
  "sorted_wrt R xs \<Longrightarrow> x \<in> set (take m xs) \<Longrightarrow> y \<in> set (drop m xs) \<Longrightarrow> R x y"
proof -
  assume a: "sorted_wrt R xs" "x \<in> set (take m xs)" "y \<in> set (drop m xs)"
  have "sorted_wrt R (take m xs @ drop m xs)" using a(1) by simp
  then show ?thesis using a(2,3) unfolding sorted_wrt_append by blast
qed

lemma new_ranks_spec:
  assumes "length ranks > 7"
  defines "R \<equiv> set (to_remove ranks)"
  shows "R \<subseteq> {1..<length ranks}"
    and "card R = length ranks - 7"
    and "new_ranks ranks = nths ranks (- R)"
    and "length (new_ranks ranks) = 7"
    and "\<forall>i\<in>R. \<forall>j\<in>{1..<length ranks} - R. removed_before ranks i j"
proof -
  let ?L = "removal_order ranks" and ?m = "length ranks - 7"
  show sub: "R \<subseteq> {1..<length ranks}"
    unfolding R_def to_remove_eq using set_removal_order[of ranks] set_take_subset[of ?m ?L] by blast
  have "card R = length (take ?m ?L)"
    unfolding R_def to_remove_eq using distinct_removal_order[of ranks]
    by (intro distinct_card distinct_take)
  then show card: "card R = length ranks - 7"
    using assms(1) by (simp add: length_removal_order)
  show eq: "new_ranks ranks = nths ranks (- R)"
    unfolding new_ranks_def R_def
    using map_nth_filter_nths[of ranks "\<lambda>i. i \<notin> set (to_remove ranks)"]
    by (simp add: Compl_eq)
  have "{i. i < length ranks \<and> i \<in> - R} = {0..<length ranks} - R" by auto
  moreover have "card ({0..<length ranks} - R) = length ranks - card R"
    using sub by (subst card_Diff_subset) (auto simp: R_def)
  ultimately show "length (new_ranks ranks) = 7"
    using assms(1) card by (simp add: eq length_nths)
  have rest: "{1..<length ranks} - R = set (drop ?m ?L)"
  proof -
    have "set (take ?m ?L) \<inter> set (drop ?m ?L) = {}"
      using distinct_removal_order[of ranks] by (rule set_take_disj_set_drop_if_distinct) simp
    moreover have "set (take ?m ?L) \<union> set (drop ?m ?L) = {1..<length ranks}"
      using set_removal_order[of ranks] by (metis append_take_drop_id set_append)
    ultimately show ?thesis unfolding R_def to_remove_eq by blast
  qed
  show "\<forall>i\<in>R. \<forall>j\<in>{1..<length ranks} - R. removed_before ranks i j"
    unfolding rest unfolding R_def to_remove_eq
    using sorted_wrt_take_drop[OF sorted_removal_order] by blast
qed

lemma fold_disbalance_autofix:
  "fold (disbalance_step True) xs (m, errs) =
     (fix_map xs m,
      errs @ map (\<lambda>item. [fst item, lineage_str_of_sid (fst item), lineage_str_of_sid (fst item)])
               (filter (\<lambda>item. length (snd item) > 7) xs))"
  unfolding fix_map_def
  by (induction xs arbitrary: m errs) (auto simp: disbalance_step_def)

lemma fix_map_keys:
  "set (map fst xs) \<subseteq> set (map fst m) \<Longrightarrow> map fst (fix_map xs m) = map fst m"
proof (induction xs arbitrary: m)
  case Nil
  then show ?case by (simp add: fix_map_def)
next
  case (Cons x xs)
  let ?m1 = "if length (snd x) > 7 then dict_set m (fst x) (new_ranks (snd x)) else m"
  have k: "map fst ?m1 = map fst m"
    using Cons.prems by (auto simp: dict_set_def update_keys)
  have "fix_map (x # xs) m = fix_map xs ?m1"
    by (simp add: fix_map_def)
  moreover have "map fst (fix_map xs ?m1) = map fst ?m1"
    using Cons.prems k by (intro Cons.IH) (simp del: set_map)
  ultimately show ?case using k by simp
qed

lemma fix_map_lookup:
  "distinct (map fst xs) \<Longrightarrow>
   map_of (fix_map xs m) k =
     (case map_of xs k of
        Some r \<Rightarrow> if length r > 7 then Some (new_ranks r) else map_of m k
      | None \<Rightarrow> map_of m k)"
  unfolding fix_map_def
proof (induction xs arbitrary: m)
  case Nil
  then show ?case by simp
next
  case (Cons x xs)
  obtain s r where x: "x = (s, r)" by (cases x)
  have "map_of xs s = None" using Cons.prems x by (simp add: map_of_eq_None_iff)
  then show ?case using Cons x by (auto simp: dict_set_def update_conv' split: option.splits)
qed

text \<open>
  C3: after \<open>check_for_disbalance(autofix=True)\<close> the store has the same identifiers; a
  path of at most 7 levels is unchanged; a longer path has exactly 7 levels, made of the
  entries outside a set \<open>R\<close> of removed positions, in their original order; \<open>R\<close> lies in
  the positions from 1 on and every removed position goes before every surviving one of
  these in the order drop-candidates, remainder, keep-candidates; and the report holds
  one record per sequence that was longer than 7, in the order of the store.
\<close>

theorem C3_disbalance_autofix:
  assumes "distinct (map fst (seq_ranks_map st))"
      and "check_for_disbalance st True = (st', errs)"
  shows "map fst (seq_ranks_map st') = map fst (seq_ranks_map st) \<and>
    (\<forall>(sid, ranks) \<in> set (seq_ranks_map st).
       if length ranks \<le> 7 then map_of (seq_ranks_map st') sid = Some ranks
       else (\<exists>ranks' R. map_of (seq_ranks_map st') sid = Some ranks' \<and> length ranks' = 7 \<and>
               R \<subseteq> {1..<length ranks} \<and> ranks' = nths ranks (- R) \<and>
               (\<forall>i\<in>R. \<forall>j\<in>{1..<length ranks} - R. removed_before ranks i j))) \<and>
    map hd errs = map fst (filter (\<lambda>(sid, ranks). length ranks > 7) (seq_ranks_map st)) \<and>
    length errs = length (filter (\<lambda>(sid, ranks). length ranks > 7) (seq_ranks_map st))"
proof -
  let ?m = "seq_ranks_map st"
  have res: "seq_ranks_map st' = fix_map ?m ?m"
    and errs: "errs = map (\<lambda>item. [fst item, lineage_str_of_sid (fst item), lineage_str_of_sid (fst item)])
               (filter (\<lambda>item. length (snd item) > 7) ?m)"
    using assms(2) by (auto simp: check_for_disbalance_def fold_disbalance_autofix)
  have keys: "map fst (seq_ranks_map st') = map fst ?m"
    unfolding res by (rule fix_map_keys) simp
  have paths: "case x of (sid, ranks) \<Rightarrow>
       if length ranks \<le> 7 then map_of (seq_ranks_map st') sid = Some ranks
       else (\<exists>ranks' R. map_of (seq_ranks_map st') sid = Some ranks' \<and> length ranks' = 7 \<and>
               R \<subseteq> {1..<length ranks} \<and> ranks' = nths ranks (- R) \<and>
               (\<forall>i\<in>R. \<forall>j\<in>{1..<length ranks} - R. removed_before ranks i j))"
    if "x \<in> set ?m" for x
  proof -
    obtain sid ranks where x: "x = (sid, ranks)" by (cases x)
    have that: "(sid, ranks) \<in> set ?m" using that x by simp
    have look: "map_of ?m sid = Some ranks" using that assms(1) by simp
    show ?thesis
    proof (cases "length ranks \<le> 7")
      case True
      then show ?thesis unfolding res x using look by (simp add: fix_map_lookup[OF assms(1)])
    next
      case False
      then have gt: "length ranks > 7" by simp
      have "map_of (seq_ranks_map st') sid = Some (new_ranks ranks)"
        unfolding res using look gt by (simp add: fix_map_lookup[OF assms(1)])
      then show ?thesis unfolding x using False new_ranks_spec[OF gt] by auto
    qed
  qed
  have filt: "(\<lambda>item. length (snd item) > 7) = (\<lambda>(sid, ranks). length ranks > 7)"
    by auto
  have e1: "map hd errs = map fst (filter (\<lambda>(sid, ranks). length ranks > 7) ?m)"
    unfolding errs filt by (simp add: comp_def)
  have e2: "length errs = length (filter (\<lambda>(sid, ranks). length ranks > 7) ?m)"
    unfolding errs filt by simp
  show ?thesis using keys paths e1 e2 by blast
qed

theorem C3_disbalance_autofix_witness:
  "distinct (map fst (seq_ranks_map disbalance_example)) \<and>
   check_for_disbalance disbalance_example True =
     (disbalance_example\<lparr>seq_ranks_map :=
        [(''s1'', [''Bacteria'', ''Firmicutes'', ''Clostridia'', ''Clostridiales'',
                   ''Lachnospiraceae'', ''Blautia'', ''Blautia producta'']),
         (''s2'', [''Bacteria'', ''Firmicutes''])]\<rparr>,
      [[''s1'', ''s;1'', ''s;1'']]) \<and>
   (\<exists>ranks'. map_of (seq_ranks_map (fst (check_for_disbalance disbalance_example True))) ''s1''
        = Some ranks' \<and> length ranks' = 7) \<and>
   map_of (seq_ranks_map (fst (check_for_disbalance disbalance_example True))) ''s2''
     = Some [''Bacteria'', ''Firmicutes''] \<and>
   length (snd (check_for_disbalance disbalance_example True)) = 1"
proof -
  have d: "distinct (map fst (seq_ranks_map disbalance_example))"
    by (simp add: disbalance_example_def)
  have ev: "check_for_disbalance disbalance_example True =
     (disbalance_example\<lparr>seq_ranks_map :=
        [(''s1'', [''Bacteria'', ''Firmicutes'', ''Clostridia'', ''Clostridiales'',
                   ''Lachnospiraceae'', ''Blautia'', ''Blautia producta'']),
         (''s2'', [''Bacteria'', ''Firmicutes''])]\<rparr>,
      [[''s1'', ''s;1'', ''s;1'']])"
    by code_simp
  have pe: "check_for_disbalance disbalance_example True =
     (fst (check_for_disbalance disbalance_example True),
      snd (check_for_disbalance disbalance_example True))"
    by simp
  have m: "seq_ranks_map disbalance_example =
        [(''s1'', [''Bacteria'', ''Firmicutes'', ''Clostridia'', ''Clostridiidae'',
                   ''Clostridiales'', ''Clostridiineae'', ''Lachnospiraceae'', ''Blautia'',
                   ''Blautia producta'']),
         (''s2'', [''Bacteria'', ''Firmicutes''])]"
    by (simp add: disbalance_example_def)
  show ?thesis
    using C3_disbalance_autofix[OF d pe] d ev unfolding m by auto
qed

section \<open>merge_ranks, rename_seq, remove_seq\<close>

lemma map_of_fold_dict_set:
  "map_of (fold (\<lambda>sid m. dict_set m sid v) sids m) k =
     (if k \<in> set sids then Some v else map_of m k)"
  by (induction sids arbitrary: m) (auto simp: dict_set_def update_conv')

lemma lowest_level_bounds:
  "- 1 \<le> lowest_assigned_rank_level p \<and> lowest_assigned_rank_level p < int (length p)"
  unfolding lowest_assigned_rank_level_def by (rule lowest_from_bounds)

lemma take_Suc_update: "n < length p \<Longrightarrow> (take (Suc n) p)[n := v] = take n p @ [v]"
  by (simp add: take_Suc_conv_app_nth list_update_append)

lemma merge_collect_two:
  assumes "k1 \<noteq> k2" "map_of rsm k1 = Some g1" "map_of rsm k2 = Some g2"
  shows "merge_collect [k1, k2] ([], rsm) = Inr (g1 @ g2, AList.delete k2 (AList.delete k1 rsm))"
  using assms by (simp add: err_bind_def dict_del_def dict_get_default_def delete_conv')

text \<open>
  C6 (amended): for two distinct keys of the reverse index with groups \<open>g1\<close> and \<open>g2\<close>,
  where the first key's path has an assigned level, \<open>merge_ranks\<close> returns the key of the
  merged path; under that key the reverse index holds one group, \<open>g1\<close> followed by \<open>g2\<close>,
  of size \<open>a + b\<close>; every other key is unchanged, except that \<open>k1\<close> and \<open>k2\<close> are gone (a
  key that equals the merged key stays, holding the merged group); every merged sequence
  has the merged path and no other sequence changes. With fewer than two keys the call
  changes nothing and returns no key.
\<close>

theorem C6_merge_ranks:
  "(k1 \<noteq> k2 \<and> map_of (rank_seqs_map st) k1 = Some g1 \<and> map_of (rank_seqs_map st) k2 = Some g2 \<and>
    0 \<le> lowest_assigned_rank_level (split_rank_uid k1 0) \<longrightarrow>
    (\<exists>st'. merge_ranks st [k1, k2] name_prefix
              = Inr (st', Some (get_rank_uid (merged_path k1 name_prefix) (-1))) \<and>
       map_of (rank_seqs_map st') (get_rank_uid (merged_path k1 name_prefix) (-1)) = Some (g1 @ g2) \<and>
       length (g1 @ g2) = length g1 + length g2 \<and>
       (\<forall>k. k \<noteq> get_rank_uid (merged_path k1 name_prefix) (-1) \<longrightarrow>
            map_of (rank_seqs_map st') k
              = (if k = k1 \<or> k = k2 then None else map_of (rank_seqs_map st) k)) \<and>
       (\<forall>sid. map_of (seq_ranks_map st') sid
              = (if sid \<in> set (g1 @ g2) then Some (merged_path k1 name_prefix)
                 else map_of (seq_ranks_map st) sid)))) \<and>
   (length rank_ids < 2 \<longrightarrow> merge_ranks st rank_ids name_prefix = Inr (st, None))"
proof (intro conjI impI)
  assume a: "k1 \<noteq> k2 \<and> map_of (rank_seqs_map st) k1 = Some g1 \<and>
    map_of (rank_seqs_map st) k2 = Some g2 \<and> 0 \<le> lowest_assigned_rank_level (split_rank_uid k1 0)"
  let ?p = "split_rank_uid k1 0"
  let ?l = "lowest_assigned_rank_level ?p"
  let ?new = "merged_path k1 name_prefix"
  let ?nk = "get_rank_uid ?new (-1)"
  let ?rsm = "AList.delete k2 (AList.delete k1 (rank_seqs_map st))"
  let ?st' = "st\<lparr>rank_seqs_map := dict_set ?rsm ?nk (g1 @ g2),
                 seq_ranks_map := fold (\<lambda>sid m. dict_set m sid ?new) (g1 @ g2) (seq_ranks_map st)\<rparr>"
  have lb: "0 \<le> ?l" "?l < int (length ?p)"
    using a lowest_level_bounds[of ?p] by auto
  have idx: "py_index ?p ?l = Inr (?p ! nat ?l)"
    using lb by (simp add: py_index_def)
  have new: "py_slice_to ?p ?l @ [name_prefix @ ?p ! nat ?l] = ?new"
    using lb by (simp add: py_slice_to_def merged_path_def Let_def take_Suc_update)
  have run: "merge_ranks st [k1, k2] name_prefix = Inr (?st', Some ?nk)"
    using a idx new
    by (simp add: merge_ranks_def merge_collect_two[of k1 k2 _ g1 g2] err_bind_def py_index_def Let_def
             del: merge_collect.simps)
  have "map_of (rank_seqs_map ?st') ?nk = Some (g1 @ g2)"
    by (simp add: dict_set_def update_conv')
  moreover have "\<forall>k. k \<noteq> ?nk \<longrightarrow> map_of (rank_seqs_map ?st') k
              = (if k = k1 \<or> k = k2 then None else map_of (rank_seqs_map st) k)"
    by (simp add: dict_set_def update_conv' delete_conv')
  moreover have "\<forall>sid. map_of (seq_ranks_map ?st') sid
              = (if sid \<in> set (g1 @ g2) then Some ?new else map_of (seq_ranks_map st) sid)"
    by (simp add: map_of_fold_dict_set)
  ultimately show "\<exists>st'. merge_ranks st [k1, k2] name_prefix = Inr (st', Some ?nk) \<and>
       map_of (rank_seqs_map st') ?nk = Some (g1 @ g2) \<and>
       length (g1 @ g2) = length g1 + length g2 \<and>
       (\<forall>k. k \<noteq> ?nk \<longrightarrow> map_of (rank_seqs_map st') k
              = (if k = k1 \<or> k = k2 then None else map_of (rank_seqs_map st) k)) \<and>
       (\<forall>sid. map_of (seq_ranks_map st') sid
              = (if sid \<in> set (g1 @ g2) then Some ?new else map_of (seq_ranks_map st) sid))"
    using run by (intro exI[of _ ?st']) simp
next
  assume "length rank_ids < 2"
  then show "merge_ranks st rank_ids name_prefix = Inr (st, None)"
    by (simp add: merge_ranks_def)
qed

theorem C6_merge_ranks_witness:
  "(\<exists>st'. merge_ranks merge_example [''Bacteria@@Bacilli'', ''Bacteria@@Clostridia''] ''__TAXCLUSTER__''
            = Inr (st', Some ''Bacteria@@__TAXCLUSTER__Bacilli'') \<and>
      map_of (rank_seqs_map st') ''Bacteria@@__TAXCLUSTER__Bacilli'' = Some [''s1'', ''s2'', ''s3''] \<and>
      map_of (rank_seqs_map st') ''Bacteria@@Bacilli'' = None \<and>
      map_of (rank_seqs_map st') ''Bacteria@@Clostridia'' = None \<and>
      map_of (seq_ranks_map st') ''s3'' = Some [''Bacteria'', ''__TAXCLUSTER__Bacilli'']) \<and>
   merge_ranks merge_example [''Bacteria@@Bacilli''] ''__TAXCLUSTER__'' = Inr (merge_example, None)"
proof -
  let ?k1 = "''Bacteria@@Bacilli''" and ?k2 = "''Bacteria@@Clostridia''"
  have h1: "?k1 \<noteq> ?k2" by simp
  have h2: "map_of (rank_seqs_map merge_example) ?k1 = Some [''s1'']"
    by (simp add: merge_example_def)
  have h3: "map_of (rank_seqs_map merge_example) ?k2 = Some [''s2'', ''s3'']"
    by (simp add: merge_example_def)
  have h4: "0 \<le> lowest_assigned_rank_level (split_rank_uid ?k1 0)"
    by code_simp
  have p: "merged_path ?k1 ''__TAXCLUSTER__'' = [''Bacteria'', ''__TAXCLUSTER__Bacilli'']"
    by code_simp
  have k: "get_rank_uid [''Bacteria'', ''__TAXCLUSTER__Bacilli''] (-1) = ''Bacteria@@__TAXCLUSTER__Bacilli''"
    by code_simp
  have l: "length [?k1] < 2" by simp
  show ?thesis
    using C6_merge_ranks[of ?k1 ?k2 merge_example "[''s1'']" "[''s2'', ''s3'']" "''__TAXCLUSTER__''" "[?k1]"]
      h1 h2 h3 h4 l unfolding p k by auto
qed

text \<open>
  The claim as stated fails when the merged key is one of the two keys: merging \<open>A\<close> and
  \<open>XA\<close> with the prefix \<open>X\<close> leaves \<open>XA\<close> a key of the reverse index.
\<close>

theorem C6_merge_ranks_key_remains_counterexample:
  "''A'' \<noteq> ''XA'' \<and>
   map_of (rank_seqs_map merge_clash_example) ''A'' = Some [''s1''] \<and>
   map_of (rank_seqs_map merge_clash_example) ''XA'' = Some [''s2''] \<and>
   merge_ranks merge_clash_example [''A'', ''XA''] ''X'' =
     Inr (\<lparr>id_prefix = '''', seq_ranks_map = [(''s1'', [''XA'']), (''s2'', [''XA''])],
           rank_seqs_map = [(''XA'', [''s1'', ''s2''])]\<rparr>, Some ''XA'') \<and>
   map_of [(''XA'', [''s1'', ''s2''])] ''XA'' \<noteq> None"
  by code_simp


lemma remove_seq_raises: "\<exists>e. remove_seq st seqid = Inl e"
  by (auto simp: remove_seq_def err_bind_def split: sum.splits)

text \<open>
  C1 (the code breaks the claim): on a store whose reverse index partitions the
  identifiers, \<open>rename_seq\<close> renames the identifier in the forward map only, so the group
  still holds the old identifier and the partition is lost; \<open>remove_seq\<close> raises NameError
  and removes nothing.
\<close>

theorem C1_rename_remove_break_partition:
  "rank_index_partitions rename_example \<and>
   rename_seq rename_example ''a'' ''b''
     = Inr (rename_example\<lparr>seq_ranks_map := [(''b'', [''Bacteria''])]\<rparr>) \<and>
   \<not> rank_index_partitions (rename_example\<lparr>seq_ranks_map := [(''b'', [''Bacteria''])]\<rparr>) \<and>
   remove_seq rename_example ''a'' = Inl NameError"
  by code_simp

section \<open>close_taxonomy_gaps: the filled positions\<close>

lemma digit_char_inj: "a < 10 \<Longrightarrow> b < 10 \<Longrightarrow> digit_char a = digit_char b \<Longrightarrow> a = b"
proof -
  assume a: "a < 10" "b < 10" "digit_char a = digit_char b"
  have "of_char (char_of (48 + a) :: char) = (of_char (char_of (48 + b) :: char) :: nat)"
    using a(3) by (simp add: digit_char_def)
  then show ?thesis using a(1,2) by simp
qed

lemma digit_char_not_underscore: "d < 10 \<Longrightarrow> digit_char d \<noteq> CHR ''_''"
proof
  assume a: "d < 10" "digit_char d = CHR ''_''"
  have "of_char (char_of (48 + d) :: char) = (of_char (CHR ''_'') :: nat)"
    using a(2) by (simp add: digit_char_def)
  then show False using a(1) by simp
qed

lemma str_nat_nonempty: "str_nat n \<noteq> []"
  by (subst str_nat.simps) simp

lemma str_nat_no_underscore: "CHR ''_'' \<notin> set (str_nat n)"
proof (induction n rule: str_nat.induct)
  case (1 n)
  show ?case
  proof (cases "n < 10")
    case True
    then show ?thesis using digit_char_not_underscore[of n]
      by (subst str_nat.simps) auto
  next
    case False
    have "n mod 10 < 10" by simp
    then have "digit_char (n mod 10) \<noteq> CHR ''_''" by (rule digit_char_not_underscore)
    then show ?thesis using False 1
      by (subst str_nat.simps) auto
  qed
qed

lemma str_nat_length: "10 \<le> n \<Longrightarrow> 2 \<le> length (str_nat n)"
  using str_nat_nonempty[of "n div 10"]
  by (subst str_nat.simps) (cases "str_nat (n div 10)", auto)

lemma str_nat_inj: "str_nat a = str_nat b \<Longrightarrow> a = b"
proof (induction a arbitrary: b rule: str_nat.induct)
  case (1 a)
  show ?case
  proof (cases "a < 10")
    case a: True
    show ?thesis
    proof (cases "b < 10")
      case True
      then show ?thesis using a 1(2) digit_char_inj[of a b]
        by (simp add: str_nat.simps[of a] str_nat.simps[of b])
    next
      case False
      then have "2 \<le> length (str_nat b)" by (simp add: str_nat_length)
      moreover have "length (str_nat a) = 1" using a by (simp add: str_nat.simps[of a])
      ultimately show ?thesis using 1(2) by simp
    qed
  next
    case a: False
    show ?thesis
    proof (cases "b < 10")
      case True
      have "2 \<le> length (str_nat a)" using a by (simp add: str_nat_length)
      moreover have "length (str_nat b) = 1" using True by (simp add: str_nat.simps[of b])
      ultimately show ?thesis using 1(2) by simp
    next
      case False
      have e: "str_nat (a div 10) @ [digit_char (a mod 10)] = str_nat (b div 10) @ [digit_char (b mod 10)]"
        using 1(2) a False by (simp add: str_nat.simps[of a] str_nat.simps[of b])
      then have "str_nat (a div 10) = str_nat (b div 10)" and d: "digit_char (a mod 10) = digit_char (b mod 10)"
        by auto
      then have "a div 10 = b div 10" using 1(1)[OF a] by blast
      moreover have "a mod 10 = b mod 10" using d by (intro digit_char_inj) auto
      ultimately show ?thesis by (metis div_mult_mod_eq)
    qed
  qed
qed

lemma tag_inj:
  assumes "''parent'' @ str_nat a @ ''_'' @ x = ''parent'' @ str_nat b @ ''_'' @ y"
  shows "a = b"
proof -
  have e: "str_nat a @ CHR ''_'' # x = str_nat b @ CHR ''_'' # y" using assms by simp
  have "takeWhile (\<lambda>c. c \<noteq> CHR ''_'') (str_nat a @ CHR ''_'' # x) = str_nat a"
    using str_nat_no_underscore[of a] by (auto simp: takeWhile_tail)
  moreover have "takeWhile (\<lambda>c. c \<noteq> CHR ''_'') (str_nat b @ CHR ''_'' # y) = str_nat b"
    using str_nat_no_underscore[of b] by (auto simp: takeWhile_tail)
  ultimately have "str_nat a = str_nat b" using e by simp
  then show ?thesis by (rule str_nat_inj)
qed

lemma gap_step_at:
  "gap_step (length pre) (l, g, pre @ x # ys) =
     (case fill_step x (l, g, ys) of (l', g', zs) \<Rightarrow> (l', g', pre @ zs))"
  by (simp add: gap_step_def fill_step_def split: option.splits)

lemma fold_gap_step:
  "i \<le> length p \<Longrightarrow>
   fold gap_step (rev [i..<length p]) (None, 0, p) =
     (case fill (drop i p) of (l, g, ys) \<Rightarrow> (l, g, take i p @ ys))"
proof (induction "length p - i" arbitrary: i)
  case 0
  then show ?case by simp
next
  case (Suc d)
  then have lt: "i < length p" and d: "d = length p - Suc i" by auto
  obtain l g ys where f: "fill (drop (Suc i) p) = (l, g, ys)" by (cases "fill (drop (Suc i) p)")
  have "fold gap_step (rev [Suc i..<length p]) (None, 0, p) = (l, g, take (Suc i) p @ ys)"
    using Suc(1)[OF d] lt f by simp
  then have ih: "fold gap_step (rev [Suc i..<length p]) (None, 0, p) = (l, g, take i p @ p ! i # ys)"
    using lt by (simp add: take_Suc_conv_app_nth)
  have up: "[i..<length p] = i # [Suc i..<length p]" using lt by (simp add: upt_rec)
  have dr: "drop i p = p ! i # drop (Suc i) p" using lt by (simp add: Cons_nth_drop_Suc)
  have len: "length (take i p) = i" using lt by simp
  have "fold gap_step (rev [i..<length p]) (None, 0, p) = gap_step (length (take i p)) (l, g, take i p @ p ! i # ys)"
    unfolding up len by (simp add: ih)
  also have "\<dots> = (case fill_step (p ! i) (l, g, ys) of (l', g', zs) \<Rightarrow> (l', g', take i p @ zs))"
    by (rule gap_step_at)
  finally show ?case unfolding dr by (simp add: f)
qed

lemma lowest_from_Cons:
  "lowest_from (x # xs) (Suc n) =
     (if 0 \<le> lowest_from xs n then lowest_from xs n + 1
      else if x \<noteq> EMPTY_RANK then 0 else - 1)"
proof (induction n)
  case 0
  then show ?case by simp
next
  case (Suc n)
  have a: "lowest_from (x # xs) (Suc (Suc n)) =
          (if xs ! n = EMPTY_RANK then lowest_from (x # xs) (Suc n) else int (Suc n))"
    by simp
  have b: "lowest_from xs (Suc n) = (if xs ! n = EMPTY_RANK then lowest_from xs n else int n)"
    by simp
  show ?case unfolding a b Suc by simp
qed

lemma lowest_Nil: "lowest_assigned_rank_level [] = - 1"
  by (simp add: lowest_assigned_rank_level_def)

lemma lowest_Cons:
  "lowest_assigned_rank_level (x # xs) =
     (if 0 \<le> lowest_assigned_rank_level xs then lowest_assigned_rank_level xs + 1
      else if x \<noteq> EMPTY_RANK then 0 else - 1)"
  unfolding lowest_assigned_rank_level_def using lowest_from_Cons[of x xs "length xs"] by simp

lemma lowest_nonneg_iff:
  "0 \<le> lowest_assigned_rank_level xs \<longleftrightarrow> (\<exists>n \<in> set xs. n \<noteq> EMPTY_RANK)"
  by (induction xs) (auto simp: lowest_Cons lowest_Nil)

lemma non_empty_prefix_Cons:
  "non_empty_prefix (x # xs) =
     (if 0 \<le> lowest_assigned_rank_level xs then x # non_empty_prefix xs
      else if x \<noteq> EMPTY_RANK then [x] else [])"
  by (auto simp: non_empty_prefix_def lowest_Cons nat_add_distrib)

lemma non_empty_prefix_Nil: "\<not> 0 \<le> lowest_assigned_rank_level xs \<Longrightarrow> non_empty_prefix xs = []"
  using lowest_level_bounds[of xs] by (simp add: non_empty_prefix_def)

lemma fill_length: "length (snd (snd (fill xs))) = length xs"
  by (induction xs) (auto simp: fill_step_def split: prod.splits option.splits)

lemma fill_last:
  "fst (fill xs) = (case filter (\<lambda>n. n \<noteq> EMPTY_RANK) xs of [] \<Rightarrow> None | n # ns \<Rightarrow> Some n)"
  by (induction xs) (auto simp: fill_step_def split: prod.splits option.splits list.splits)

lemma fill_last_None:
  "fst (fill xs) = None \<longleftrightarrow> \<not> 0 \<le> lowest_assigned_rank_level xs"
proof -
  have "filter (\<lambda>n. n \<noteq> EMPTY_RANK) xs = [] \<longleftrightarrow> \<not> (\<exists>n \<in> set xs. n \<noteq> EMPTY_RANK)"
    by (simp add: filter_empty_conv)
  then show ?thesis
    by (cases "filter (\<lambda>n. n \<noteq> EMPTY_RANK) xs") (simp_all add: fill_last lowest_nonneg_iff)
qed

lemma fill_last_in: "fst (fill xs) = Some n \<Longrightarrow> n \<in> set xs"
proof -
  assume "fst (fill xs) = Some n"
  then obtain ns where "filter (\<lambda>n. n \<noteq> EMPTY_RANK) xs = n # ns"
    by (auto simp: fill_last split: list.splits)
  then have "n \<in> set (filter (\<lambda>n. n \<noteq> EMPTY_RANK) xs)" by simp
  then show ?thesis by simp
qed

lemma fill_count:
  "[] \<notin> set xs \<Longrightarrow>
   fst (snd (fill xs)) = length (filter (\<lambda>n. n = EMPTY_RANK) (non_empty_prefix xs))"
proof (induction xs)
  case Nil
  then show ?case by (simp add: non_empty_prefix_def)
next
  case (Cons x xs)
  obtain l g ys where f: "fill xs = (l, g, ys)" by (cases "fill xs")
  have ih: "g = length (filter (\<lambda>n. n = EMPTY_RANK) (non_empty_prefix xs))"
    using Cons f by simp
  show ?case
  proof (cases l)
    case None
    then have "\<not> 0 \<le> lowest_assigned_rank_level xs" using fill_last_None[of xs] f by simp
    then show ?thesis using None f ih
      by (simp add: fill_step_def non_empty_prefix_Cons non_empty_prefix_Nil)
  next
    case (Some n)
    then have "0 \<le> lowest_assigned_rank_level xs" using fill_last_None[of xs] f by simp
    moreover have "n \<noteq> []" using fill_last_in[of xs n] f Some Cons.prems by auto
    ultimately show ?thesis using Some f ih
      by (simp add: fill_step_def non_empty_prefix_Cons)
  qed
qed

lemma next_name_Suc: "next_name (x # xs) (Suc j) = next_name xs j"
  by (simp add: next_name_def)

lemma gap_number_Suc: "gap_number (x # xs) (Suc j) = gap_number xs j"
  by (simp add: gap_number_def)

lemma filled_name_Suc: "filled_name (x # xs) (Suc j) = filled_name xs j"
  by (simp add: filled_name_def next_name_Suc gap_number_Suc split: option.splits)

lemma fill_nth:
  "[] \<notin> set xs \<Longrightarrow> j < length xs \<Longrightarrow>
   snd (snd (fill xs)) ! j = (if xs ! j = EMPTY_RANK then filled_name xs j else xs ! j)"
proof (induction xs arbitrary: j)
  case Nil
  then show ?case by simp
next
  case (Cons x xs)
  obtain l g ys where f: "fill xs = (l, g, ys)" by (cases "fill xs")
  show ?case
  proof (cases j)
    case 0
    have nn: "next_name (x # xs) 0 = l"
      using fill_last[of xs] f by (simp add: next_name_def)
    have gn: "gap_number (x # xs) 0 = fst (snd (fill (x # xs)))"
      using fill_count[OF Cons.prems(1)] by (simp add: gap_number_def)
    have ne: "l = Some n \<Longrightarrow> n \<noteq> []" for n
      using fill_last_in[of xs n] f Cons.prems(1) by auto
    show ?thesis
    proof (cases "x = EMPTY_RANK")
      case False
      then show ?thesis using 0 f by (simp add: fill_step_def)
    next
      case True
      have "filled_name (x # xs) 0 = snd (snd (fill (x # xs))) ! 0"
        unfolding filled_name_def nn gn using True f ne
        by (cases l) (simp_all add: fill_step_def synth_name_def)
      then show ?thesis using 0 True by simp
    qed
  next
    case (Suc j')
    have "snd (snd (fill (x # xs))) ! j = ys ! j'"
      using Suc f by (auto simp: fill_step_def split: option.splits)
    moreover have "ys ! j' = (if xs ! j' = EMPTY_RANK then filled_name xs j' else xs ! j')"
      using Cons.IH[of j'] Cons.prems Suc f by simp
    ultimately show ?thesis using Suc
      by (simp add: filled_name_Suc)
  qed
qed

lemma close_gaps_Cons: "close_gaps (x # xs) = x # snd (snd (fill xs))"
  using fold_gap_step[of 1 "x # xs"]
  by (simp add: close_gaps_def split: prod.splits)

lemma close_gaps_Nil: "close_gaps [] = []"
  by (simp add: close_gaps_def)

lemma close_gaps_length: "length (close_gaps p) = length p"
  by (cases p) (simp_all add: close_gaps_Nil close_gaps_Cons fill_length)

lemma close_gaps_nth:
  assumes "[] \<notin> set (tl p)" "i < length p"
  shows "close_gaps p ! i = (if 0 < i \<and> p ! i = EMPTY_RANK then filled_name p i else p ! i)"
proof (cases p)
  case Nil
  then show ?thesis using assms by simp
next
  case (Cons x xs)
  show ?thesis
  proof (cases i)
    case 0
    then show ?thesis using Cons by (simp add: close_gaps_Cons)
  next
    case (Suc j)
    then show ?thesis using Cons assms fill_nth[of xs j]
      by (simp add: close_gaps_Cons filled_name_Suc)
  qed
qed

lemma lowest_nonempty: "0 \<le> lowest_assigned_rank_level p \<Longrightarrow> p ! nat (lowest_assigned_rank_level p) \<noteq> EMPTY_RANK"
  unfolding lowest_assigned_rank_level_def by (rule lowest_from_nonempty)

lemma lowest_above: "lowest_assigned_rank_level p < int i \<Longrightarrow> i < length p \<Longrightarrow> p ! i = EMPTY_RANK"
  unfolding lowest_assigned_rank_level_def by (rule lowest_from_above)

lemma lowest_unique:
  assumes "- 1 \<le> l" "l < int (length q)" "0 \<le> l \<longrightarrow> q ! nat l \<noteq> EMPTY_RANK"
    and "\<forall>j. l < int j \<and> j < length q \<longrightarrow> q ! j = EMPTY_RANK"
  shows "lowest_assigned_rank_level q = l"
proof -
  let ?m = "lowest_assigned_rank_level q"
  have b: "- 1 \<le> ?m" "?m < int (length q)" using lowest_level_bounds[of q] by auto
  have "\<not> ?m < l"
  proof
    assume "?m < l"
    then have "q ! nat l = EMPTY_RANK" using lowest_above[of q "nat l"] assms(2) b by auto
    then show False using assms(3) \<open>?m < l\<close> b by auto
  qed
  moreover have "\<not> l < ?m"
  proof
    assume "l < ?m"
    then have "q ! nat ?m = EMPTY_RANK" using assms(4) b assms(1) by auto
    then show False using lowest_nonempty[of q] \<open>l < ?m\<close> assms(1) by auto
  qed
  ultimately show ?thesis by simp
qed

lemma in_set_drop_nth: "x \<in> set (drop n l) \<longleftrightarrow> (\<exists>i. n \<le> i \<and> i < length l \<and> x = l ! i)"
proof
  assume "x \<in> set (drop n l)"
  then obtain k where k: "k < length l - n" "drop n l ! k = x"
    unfolding in_set_conv_nth by auto
  then have "n \<le> n + k \<and> n + k < length l \<and> x = l ! (n + k)" by auto
  then show "\<exists>i. n \<le> i \<and> i < length l \<and> x = l ! i" by blast
next
  assume "\<exists>i. n \<le> i \<and> i < length l \<and> x = l ! i"
  then obtain i where i: "n \<le> i" "i < length l" "x = l ! i" by blast
  then have "i - n < length (drop n l)" "drop n l ! (i - n) = x" by auto
  then show "x \<in> set (drop n l)" unfolding in_set_conv_nth by blast
qed

lemma next_name_None_iff:
  "next_name p i = None \<longleftrightarrow> (\<forall>k. i < k \<and> k < length p \<longrightarrow> p ! k = EMPTY_RANK)"
proof -
  have "filter (\<lambda>n. n \<noteq> EMPTY_RANK) (drop (Suc i) p) = []
          \<longleftrightarrow> (\<forall>x \<in> set (drop (Suc i) p). x = EMPTY_RANK)"
    by (simp add: filter_empty_conv)
  then have "next_name p i = None \<longleftrightarrow> (\<forall>x \<in> set (drop (Suc i) p). x = EMPTY_RANK)"
    by (cases "filter (\<lambda>n. n \<noteq> EMPTY_RANK) (drop (Suc i) p)") (simp_all add: next_name_def)
  also have "\<dots> \<longleftrightarrow> (\<forall>k. i < k \<and> k < length p \<longrightarrow> p ! k = EMPTY_RANK)"
    unfolding Ball_def in_set_drop_nth Suc_le_eq by blast
  finally show ?thesis .
qed

lemma synth_name_not_empty_rank: "synth_name k n \<noteq> EMPTY_RANK"
  by (simp add: synth_name_def EMPTY_RANK_def)

lemma filled_name_marker_iff: "filled_name p i = EMPTY_RANK \<longleftrightarrow> next_name p i = None"
  by (simp add: filled_name_def synth_name_not_empty_rank split: option.splits)

lemma close_gaps_marker_iff:
  assumes "[] \<notin> set (tl p)" "i < length p"
  shows "close_gaps p ! i = EMPTY_RANK \<longleftrightarrow> p ! i = EMPTY_RANK \<and> (i = 0 \<or> next_name p i = None)"
  using close_gaps_nth[OF assms] by (auto simp: filled_name_marker_iff)

lemma close_gaps_lowest:
  assumes "[] \<notin> set (tl p)"
  shows "lowest_assigned_rank_level (close_gaps p) = lowest_assigned_rank_level p"
proof (rule lowest_unique)
  let ?l = "lowest_assigned_rank_level p"
  show "- 1 \<le> ?l" "?l < int (length (close_gaps p))"
    using lowest_level_bounds[of p] by (auto simp: close_gaps_length)
  show "0 \<le> ?l \<longrightarrow> close_gaps p ! nat ?l \<noteq> EMPTY_RANK"
  proof
    assume a: "0 \<le> ?l"
    then have "nat ?l < length p" using lowest_level_bounds[of p] by auto
    then show "close_gaps p ! nat ?l \<noteq> EMPTY_RANK"
      using close_gaps_marker_iff[OF assms, of "nat ?l"] lowest_nonempty[OF a] by simp
  qed
  show "\<forall>j. ?l < int j \<and> j < length (close_gaps p) \<longrightarrow> close_gaps p ! j = EMPTY_RANK"
  proof (intro allI impI)
    fix j assume a: "?l < int j \<and> j < length (close_gaps p)"
    then have j: "j < length p" by (simp add: close_gaps_length)
    have "p ! j = EMPTY_RANK" using a j lowest_above[of p j] by simp
    moreover have "next_name p j = None"
      unfolding next_name_None_iff using a lowest_above[of p] by auto
    ultimately show "close_gaps p ! j = EMPTY_RANK"
      using close_gaps_marker_iff[OF assms j] by simp
  qed
qed

lemma next_name_Some_below:
  assumes "int i < lowest_assigned_rank_level p"
  shows "next_name p i \<noteq> None"
proof -
  let ?l = "lowest_assigned_rank_level p"
  have "0 \<le> ?l" using assms by simp
  then have "p ! nat ?l \<noteq> EMPTY_RANK" by (rule lowest_nonempty)
  moreover have "i < nat ?l \<and> nat ?l < length p" using assms lowest_level_bounds[of p] by auto
  ultimately show ?thesis unfolding next_name_None_iff by blast
qed

lemma close_gaps_no_gap:
  assumes "[] \<notin> set (tl p)" "0 < i" "int i < lowest_assigned_rank_level (close_gaps p)"
  shows "close_gaps p ! i \<noteq> EMPTY_RANK"
proof -
  have lt: "int i < lowest_assigned_rank_level p" using assms by (simp add: close_gaps_lowest)
  then have "i < length p" using lowest_level_bounds[of p] by auto
  then show ?thesis
    using close_gaps_marker_iff[OF assms(1), of i] next_name_Some_below[OF lt] assms(2) by simp
qed

lemma non_empty_prefix_append:
  "0 \<le> lowest_assigned_rank_level vs \<Longrightarrow> non_empty_prefix (us @ vs) = us @ non_empty_prefix vs"
proof (induction us)
  case Nil
  then show ?case by simp
next
  case (Cons u us)
  have "0 \<le> lowest_assigned_rank_level (us @ vs)"
    using Cons.prems by (auto simp: lowest_nonneg_iff)
  then show ?case using Cons by (simp add: non_empty_prefix_Cons)
qed

lemma gap_number_less:
  assumes "i < j" "j < length p" "p ! i = EMPTY_RANK" "next_name p j \<noteq> None \<or> p ! j \<noteq> EMPTY_RANK"
  shows "gap_number p j < gap_number p i"
proof -
  have "\<exists>k. j \<le> k \<and> k < length p \<and> p ! k \<noteq> EMPTY_RANK"
    using assms(2,4) unfolding next_name_None_iff by (meson less_imp_le_nat order_refl)
  then obtain k where k: "j \<le> k" "k < length p" "p ! k \<noteq> EMPTY_RANK" by blast
  have "p ! k \<in> set (drop j p)"
    using k unfolding in_set_drop_nth by blast
  then have low: "0 \<le> lowest_assigned_rank_level (drop j p)"
    using k(3) unfolding lowest_nonneg_iff by blast
  have "drop (j - i) (drop i p) = drop j p" using assms(1) by simp
  then have sp: "drop i p = take (j - i) (drop i p) @ drop j p"
    using append_take_drop_id[of "j - i" "drop i p"] by simp
  have "drop i p = p ! i # drop (Suc i) p" "j - i = Suc (j - Suc i)"
    using assms(1,2) by (simp_all add: Cons_nth_drop_Suc)
  then have hd: "take (j - i) (drop i p) = p ! i # take (j - Suc i) (drop (Suc i) p)"
    by simp
  have "non_empty_prefix (drop i p) = take (j - i) (drop i p) @ non_empty_prefix (drop j p)"
    using non_empty_prefix_append[OF low, of "take (j - i) (drop i p)"] sp by simp
  then show ?thesis
    unfolding gap_number_def hd using assms(3) by simp
qed

lemma close_gaps_distinct:
  assumes "[] \<notin> set (tl p)" "0 < i" "i < j" "int j < lowest_assigned_rank_level p"
    and "p ! i = EMPTY_RANK" "p ! j = EMPTY_RANK"
  shows "close_gaps p ! i \<noteq> close_gaps p ! j"
proof -
  have jl: "j < length p" using assms(4) lowest_level_bounds[of p] by auto
  obtain n where n: "next_name p i = Some n"
    using next_name_Some_below[of i p] assms(3,4) by auto
  obtain m where m: "next_name p j = Some m"
    using next_name_Some_below[of j p] assms(4) by auto
  have qi: "close_gaps p ! i = synth_name (gap_number p i) n"
    using close_gaps_nth[OF assms(1), of i] assms(2,3,5) jl n by (simp add: filled_name_def)
  have qj: "close_gaps p ! j = synth_name (gap_number p j) m"
    using close_gaps_nth[OF assms(1), of j] assms(2,3,6) jl m by (simp add: filled_name_def)
  have "gap_number p j < gap_number p i"
    using gap_number_less[of i j p] assms(3,5) jl m by simp
  then show ?thesis
    unfolding qi qj synth_name_def using tag_inj[of "gap_number p i" n "gap_number p j" m] by auto
qed

text \<open>
  C4 (amended): in a store with distinct identifiers, take a path whose names at the
  positions from 1 on are never the empty string. After \<open>close_taxonomy_gaps\<close> the path
  has the same length and the same lowest assigned level, and no empty marker at a
  position strictly between the root position and that level. A position keeps its
  entry unless it is a marker at a position from 1 on, which holds the name synthesized
  from the nearest known name below it and its gap counter (and stays a marker when no
  name is known below it). Two synthesized names in one path are different.
\<close>

theorem C4_close_taxonomy_gaps:
  assumes "distinct (map fst (seq_ranks_map st))"
      and "(sid, p) \<in> set (seq_ranks_map st)"
      and "[] \<notin> set (tl p)"
  shows "\<exists>q. map_of (seq_ranks_map (close_taxonomy_gaps st)) sid = Some q \<and>
     length q = length p \<and>
     lowest_assigned_rank_level q = lowest_assigned_rank_level p \<and>
     (\<forall>i. 0 < i \<and> int i < lowest_assigned_rank_level q \<longrightarrow> q ! i \<noteq> EMPTY_RANK) \<and>
     (\<forall>i < length p. q ! i = (if 0 < i \<and> p ! i = EMPTY_RANK then filled_name p i else p ! i)) \<and>
     (\<forall>i j. 0 < i \<and> i < j \<and> int j < lowest_assigned_rank_level q \<and>
            p ! i = EMPTY_RANK \<and> p ! j = EMPTY_RANK \<longrightarrow> q ! i \<noteq> q ! j)"
proof -
  have "map_of (seq_ranks_map st) sid = Some p"
    using assms(1,2) by simp
  then have "map_of (seq_ranks_map (close_taxonomy_gaps st)) sid = Some (close_gaps p)"
    by (simp add: close_taxonomy_gaps_def map_of_map)
  moreover have "\<forall>i. 0 < i \<and> int i < lowest_assigned_rank_level (close_gaps p)
       \<longrightarrow> close_gaps p ! i \<noteq> EMPTY_RANK"
    using close_gaps_no_gap[OF assms(3)] by blast
  moreover have "\<forall>i < length p. close_gaps p ! i
       = (if 0 < i \<and> p ! i = EMPTY_RANK then filled_name p i else p ! i)"
    using close_gaps_nth[OF assms(3)] by blast
  moreover have "\<forall>i j. 0 < i \<and> i < j \<and> int j < lowest_assigned_rank_level (close_gaps p) \<and>
            p ! i = EMPTY_RANK \<and> p ! j = EMPTY_RANK \<longrightarrow> close_gaps p ! i \<noteq> close_gaps p ! j"
    using close_gaps_distinct[OF assms(3)] by (simp add: close_gaps_lowest[OF assms(3)])
  ultimately show ?thesis
    using close_gaps_length[of p] close_gaps_lowest[OF assms(3)] by blast
qed

theorem C4_close_taxonomy_gaps_witness:
  "seq_ranks_map (close_taxonomy_gaps gaps_example)
     = [(''s1'', [''Bacteria'', ''parent3_A'', ''A'', ''parent2_B'', ''parent1_B'', ''B'', ''-''])] \<and>
   (\<exists>q. map_of (seq_ranks_map (close_taxonomy_gaps gaps_example)) ''s1'' = Some q \<and>
        length q = 7 \<and> lowest_assigned_rank_level q = 5 \<and>
        q ! 1 \<noteq> EMPTY_RANK \<and> q ! 3 \<noteq> EMPTY_RANK \<and> q ! 4 \<noteq> EMPTY_RANK \<and> q ! 3 \<noteq> q ! 4)"
proof -
  let ?p = "[''Bacteria'', ''-'', ''A'', ''-'', ''-'', ''B'', ''-'']"
  have d: "distinct (map fst (seq_ranks_map gaps_example))"
    by (simp add: gaps_example_def)
  have m: "(''s1'', ?p) \<in> set (seq_ranks_map gaps_example)"
    by (simp add: gaps_example_def)
  have n: "[] \<notin> set (tl ?p)" by simp
  have l: "lowest_assigned_rank_level ?p = 5"
    by (simp add: lowest_assigned_rank_level_def EMPTY_RANK_def)
  have e: "?p ! 3 = EMPTY_RANK" "?p ! 4 = EMPTY_RANK"
    by (simp_all add: EMPTY_RANK_def)
  have ev: "seq_ranks_map (close_taxonomy_gaps gaps_example)
     = [(''s1'', [''Bacteria'', ''parent3_A'', ''A'', ''parent2_B'', ''parent1_B'', ''B'', ''-''])]"
    by code_simp
  obtain q where q: "map_of (seq_ranks_map (close_taxonomy_gaps gaps_example)) ''s1'' = Some q"
     "length q = length ?p" "lowest_assigned_rank_level q = lowest_assigned_rank_level ?p"
     "\<forall>i. 0 < i \<and> int i < lowest_assigned_rank_level q \<longrightarrow> q ! i \<noteq> EMPTY_RANK"
     "\<forall>i j. 0 < i \<and> i < j \<and> int j < lowest_assigned_rank_level q \<and>
            ?p ! i = EMPTY_RANK \<and> ?p ! j = EMPTY_RANK \<longrightarrow> q ! i \<noteq> q ! j"
    using C4_close_taxonomy_gaps[OF d m n] by blast
  have "q ! 1 \<noteq> EMPTY_RANK" "q ! 3 \<noteq> EMPTY_RANK" "q ! 4 \<noteq> EMPTY_RANK"
    using q(3,4) l by auto
  moreover have "q ! 3 \<noteq> q ! 4"
    using q(3,5) l e by auto
  ultimately show ?thesis using ev q(1,2,3) l by auto
qed

text \<open>
  The claim as stated fails on a path whose deepest name is the empty string (a lineage
  that ends in \<open>;\<close> loads as such): the marker above it is not filled, although the lowest
  assigned level is below it.
\<close>

theorem C4_empty_name_leaves_gap_counterexample:
  "seq_ranks_map (close_taxonomy_gaps gaps_empty_name_example)
     = [(''s1'', [''Bacteria'', ''-'', ''''])] \<and>
   lowest_assigned_rank_level [''Bacteria'', ''-'', ''''] = 2 \<and>
   [''Bacteria'', ''-'', ''''] ! 1 = EMPTY_RANK"
  by code_simp

section \<open>check_for_duplicates: the scan of one sequence\<close>

lemma err_bind_Inr_iff:
  "err_bind m f = Inr y \<longleftrightarrow> (\<exists>x. m = Inr x \<and> f x = Inr y)"
  by (cases m) (simp_all add: err_bind_def)

lemma dict_get_Inr_iff: "dict_get d k = Inr v \<longleftrightarrow> map_of d k = Some v"
  by (simp add: dict_get_def split: option.splits)

lemma set_rank_paths_from:
  assumes "set_rank s sid i v = Inr s'" "i < k"
  shows "paths_from k (seq_ranks_map (tax s')) = paths_from k (seq_ranks_map (tax s))"
    and "parent_map s' = parent_map s" and "dups s' = dups s"
    and "old_fixed s' = old_fixed s" and "old_ranks s' = old_ranks s"
    and "id_prefix (tax s') = id_prefix (tax s)"
proof -
  obtain ranks where r: "map_of (seq_ranks_map (tax s)) sid = Some ranks"
    and s': "s' = s\<lparr>tax := (tax s)\<lparr>seq_ranks_map :=
                 dict_set (seq_ranks_map (tax s)) sid (ranks[i := v])\<rparr>\<rparr>"
    using assms(1) by (auto simp: set_rank_def err_bind_Inr_iff dict_get_Inr_iff)
  show "paths_from k (seq_ranks_map (tax s')) = paths_from k (seq_ranks_map (tax s))"
    using r assms(2) by (auto simp: s' paths_from_def dict_set_def update_conv' fun_eq_iff)
  show "parent_map s' = parent_map s" "dups s' = dups s" "old_fixed s' = old_fixed s"
    "old_ranks s' = old_ranks s" "id_prefix (tax s') = id_prefix (tax s)"
    by (simp_all add: s')
qed

lemma dup_fix_paths_from:
  assumes "dup_fix sid i parent old_sid s = Inr s'" "i < k"
  shows "paths_from k (seq_ranks_map (tax s')) = paths_from k (seq_ranks_map (tax s))"
proof -
  define s1 where "s1 = (if map_of (old_fixed s) old_sid = None
                then s\<lparr>old_fixed := dict_set (old_fixed s) old_sid (lineage_str_of_sid old_sid),
                       old_ranks := dict_set (old_ranks s) old_sid []\<rparr>
                else s)"
  have t1: "tax s1 = tax s" by (simp add: s1_def)
  obtain fixed s2 name s3 where
        s2: "(if i \<notin> set fixed
            then err_bind (dict_get (seq_ranks_map (tax s1)) old_sid) (\<lambda>old.
                 err_bind (py_index old (int i)) (\<lambda>old_name.
                 err_bind (py_index old (int i - 1)) (\<lambda>old_parent.
                 err_bind (set_rank s1 old_sid i (old_name @ ''_'' @ old_parent)) (\<lambda>s'.
                 Inr (s'\<lparr>old_ranks := dict_set (old_ranks s') old_sid (fixed @ [i])\<rparr>)))))
            else Inr s1) = Inr s2"
    and s3: "set_rank s2 sid i (name @ ''_'' @ parent) = Inr s3"
    and s': "s' = s3\<lparr>dups := dups s3 @ [[old_sid, lineage_str_of_sid old_sid, sid,
                                       lineage_str_of_sid sid, lineage_str_of_sid sid]]\<rparr>"
    using assms(1) unfolding dup_fix_def s1_def[symmetric] Let_def err_bind_Inr_iff by blast
  have p2: "paths_from k (seq_ranks_map (tax s2)) = paths_from k (seq_ranks_map (tax s1))"
  proof (cases "i \<notin> set fixed")
    case True
    then obtain v sa where "set_rank s1 old_sid i v = Inr sa"
      and "s2 = sa\<lparr>old_ranks := dict_set (old_ranks sa) old_sid (fixed @ [i])\<rparr>"
      using s2 by (auto simp: err_bind_Inr_iff)
    then show ?thesis using set_rank_paths_from(1)[OF _ assms(2)] by simp
  next
    case False
    then show ?thesis using s2 by simp
  qed
  have "paths_from k (seq_ranks_map (tax s3)) = paths_from k (seq_ranks_map (tax s2))"
    using set_rank_paths_from(1)[OF s3 assms(2)] .
  then show ?thesis using p2 t1 by (simp add: s')
qed

lemma dup_visit_paths_from:
  assumes "dup_visit autofix sid i ranks s = Inr s'" "i < k"
  shows "paths_from k (seq_ranks_map (tax s')) = paths_from k (seq_ranks_map (tax s))"
proof -
  obtain parent name where v: "(case map_of (parent_map s) name of
        None \<Rightarrow> Inr (s\<lparr>parent_map := dict_set (parent_map s) name sid\<rparr>)
      | Some old_sid \<Rightarrow>
          err_bind (get_seq_ranks (tax s) old_sid) (\<lambda>old.
          err_bind (py_index old (int i - 1)) (\<lambda>old_parent.
          if old_parent \<noteq> parent then
            (if autofix then dup_fix sid i parent old_sid s
             else Inr (s\<lparr>dups := dups s @ [[old_sid, lineage_str_of_sid old_sid, sid,
                                              lineage_str_of_sid sid]]\<rparr>))
          else Inr s))) = Inr s'"
    using assms(1) unfolding dup_visit_def err_bind_Inr_iff by blast
  show ?thesis
  proof (cases "map_of (parent_map s) name")
    case None
    then show ?thesis using v by auto
  next
    case (Some old_sid)
    then obtain old_parent where "(if old_parent \<noteq> parent then
            (if autofix then dup_fix sid i parent old_sid s
             else Inr (s\<lparr>dups := dups s @ [[old_sid, lineage_str_of_sid old_sid, sid,
                                              lineage_str_of_sid sid]]\<rparr>))
          else Inr s) = Inr s'"
      using v by (auto simp: err_bind_Inr_iff)
    then show ?thesis using dup_fix_paths_from[OF _ assms(2)]
      by (auto split: if_splits)
  qed
qed

lemma dup_scan_paths_from:
  "dup_scan autofix sid ps s = Inr s' \<Longrightarrow> \<forall>i \<in> set ps. i < k \<Longrightarrow>
   paths_from k (seq_ranks_map (tax s')) = paths_from k (seq_ranks_map (tax s))"
proof (induction ps arbitrary: s)
  case Nil
  then show ?case by simp
next
  case (Cons i ps)
  obtain ranks name where st: "(if name = EMPTY_RANK then Inr s
       else err_bind (dup_visit autofix sid i ranks s) (\<lambda>s'. dup_scan autofix sid ps s')) = Inr s'"
    using Cons.prems(1) unfolding dup_scan.simps err_bind_Inr_iff by blast
  show ?case
  proof (cases "name = EMPTY_RANK")
    case True
    then show ?thesis using st by simp
  next
    case False
    then obtain s1 where v: "dup_visit autofix sid i ranks s = Inr s1"
      and r: "dup_scan autofix sid ps s1 = Inr s'"
      using st by (auto simp: err_bind_Inr_iff)
    have "paths_from k (seq_ranks_map (tax s1)) = paths_from k (seq_ranks_map (tax s))"
      using dup_visit_paths_from[OF v] Cons.prems(2) by simp
    moreover have "paths_from k (seq_ranks_map (tax s')) = paths_from k (seq_ranks_map (tax s1))"
      using Cons.IH[OF r] Cons.prems(2) by simp
    ultimately show ?thesis by simp
  qed
qed

lemma paths_from_nth:
  assumes "paths_from k m' = paths_from k m" "map_of m sid = Some p" "k < length p"
  shows "\<exists>p'. map_of m' sid = Some p' \<and> length p' = length p \<and> p' ! k = p ! k"
proof -
  have "paths_from k m' sid = Some (length p, drop k p)"
    using assms(1,2) by (simp add: paths_from_def)
  then obtain p' where p': "map_of m' sid = Some p'" "length p' = length p" "drop k p' = drop k p"
    by (auto simp: paths_from_def)
  have "p' ! k = hd (drop k p')" using p'(2) assms(3) by (simp add: hd_drop_conv_nth)
  also have "\<dots> = p ! k" using p'(3) assms(3) by (simp add: hd_drop_conv_nth)
  finally show ?thesis using p' by blast
qed

lemma dup_scan_stop:
  "map_of (seq_ranks_map (tax s)) sid = Some p \<Longrightarrow> k < length p \<Longrightarrow> p ! k = EMPTY_RANK \<Longrightarrow>
   a \<le> k \<Longrightarrow> k < n \<Longrightarrow>
   dup_scan autofix sid [a..<n] s = dup_scan autofix sid [a..<k] s"
proof (induction "k - a" arbitrary: a s p)
  case 0
  then have "a = k" by simp
  then have "[a..<n] = k # [Suc k..<n]" "[a..<k] = []" using 0 by (simp_all add: upt_rec)
  then show ?case using 0 by (simp add: err_bind_def dict_get_def py_index_def)
next
  case (Suc d)
  then have lt: "a < k" by simp
  then have un: "[a..<n] = a # [Suc a..<n]" and uk: "[a..<k] = a # [Suc a..<k]"
    using Suc.prems by (simp_all add: upt_rec)
  have g: "dict_get (seq_ranks_map (tax s)) sid = Inr p"
    using Suc.prems(1) by (simp add: dict_get_def)
  have ix: "py_index p (int a) = Inr (p ! a)" using lt Suc.prems(2) by (simp add: py_index_def)
  show ?case
  proof (cases "p ! a = EMPTY_RANK")
    case True
    then show ?thesis unfolding un uk by (simp add: g ix err_bind_def)
  next
    case False
    show ?thesis
    proof (cases "dup_visit autofix sid a p s")
      case (Inl e)
      then show ?thesis unfolding un uk using False by (simp add: g ix err_bind_def)
    next
      case (Inr s1)
      have "paths_from k (seq_ranks_map (tax s1)) = paths_from k (seq_ranks_map (tax s))"
        using dup_visit_paths_from[OF Inr lt] .
      then obtain p' where p': "map_of (seq_ranks_map (tax s1)) sid = Some p'"
        "length p' = length p" "p' ! k = p ! k"
        using paths_from_nth[OF _ Suc.prems(1,2)] by blast
      have "dup_scan autofix sid [Suc a..<n] s1 = dup_scan autofix sid [Suc a..<k] s1"
        using Suc.hyps(1)[of "Suc a" s1 p'] Suc.hyps(2) p' Suc.prems lt by simp
      then show ?thesis unfolding un uk using False Inr by (simp add: g ix err_bind_def)
    qed
  qed
qed

text \<open>
  C10 (amended): in both modes the scan of one sequence runs over the positions
  1, 2, ... in ascending order and stops at the first empty marker at a position from 1
  on (position 0 is never tested). When the path of the sequence holds the marker at
  position \<open>k \<ge> 1\<close>, its scan is the scan of the positions below \<open>k\<close>, and it leaves the
  entries at the positions from \<open>k\<close> on unchanged in every path of the store.
\<close>

theorem C10_scan_stops_at_marker:
  assumes "map_of (seq_ranks_map (tax s)) sid = Some p"
      and "1 \<le> k" and "k < length p" and "p ! k = EMPTY_RANK"
  shows "dup_scan autofix sid [1..<length p] s = dup_scan autofix sid [1..<k] s \<and>
     (\<forall>s'. dup_scan autofix sid [1..<length p] s = Inr s' \<longrightarrow>
        paths_from k (seq_ranks_map (tax s')) = paths_from k (seq_ranks_map (tax s)))"
proof -
  have eq: "dup_scan autofix sid [1..<length p] s = dup_scan autofix sid [1..<k] s"
    using assms by (intro dup_scan_stop[of s sid p k]) auto
  moreover have "paths_from k (seq_ranks_map (tax s')) = paths_from k (seq_ranks_map (tax s))"
    if "dup_scan autofix sid [1..<length p] s = Inr s'" for s'
    using that unfolding eq by (rule dup_scan_paths_from) simp
  ultimately show ?thesis by blast
qed

theorem C10_scan_stops_at_marker_witness:
  "dup_scan False ''s1'' [1..<5] (dup_init scan_example)
     = Inr ((dup_init scan_example)\<lparr>parent_map := [(''A'', ''s1'')]\<rparr>) \<and>
   dup_scan False ''s1'' [1..<2] (dup_init scan_example)
     = Inr ((dup_init scan_example)\<lparr>parent_map := [(''A'', ''s1'')]\<rparr>) \<and>
   check_for_duplicates scan_example False = Inr (scan_example, []) \<and>
   check_for_duplicates scan_example True = Inr (scan_example, [])"
proof -
  let ?p = "[''K'', ''A'', ''-'', ''P1'', ''X'']"
  have m: "map_of (seq_ranks_map (tax (dup_init scan_example))) ''s1'' = Some ?p"
    by (simp add: dup_init_def scan_example_def)
  have k: "(1::nat) \<le> 2" "2 < length ?p" "?p ! 2 = EMPTY_RANK"
    by (simp_all add: EMPTY_RANK_def)
  have e: "dup_scan False ''s1'' [1..<2] (dup_init scan_example)
     = Inr ((dup_init scan_example)\<lparr>parent_map := [(''A'', ''s1'')]\<rparr>)"
    by code_simp
  have c: "check_for_duplicates scan_example False = Inr (scan_example, [])"
     "check_for_duplicates scan_example True = Inr (scan_example, [])"
    by code_simp+
  have l: "length ?p = 5" by simp
  have "dup_scan False ''s1'' [1..<length ?p] (dup_init scan_example)
          = dup_scan False ''s1'' [1..<2] (dup_init scan_example)"
    using C10_scan_stops_at_marker[OF m k, of False] by (rule conjunct1)
  then have "dup_scan False ''s1'' [1..<5] (dup_init scan_example)
     = Inr ((dup_init scan_example)\<lparr>parent_map := [(''A'', ''s1'')]\<rparr>)"
    unfolding l using e by (rule trans)
  then show ?thesis using e c by (intro conjI)
qed

text \<open>
  The claim as stated fails for a marker at the root position: the scan starts at
  position 1 and goes on, so the collision of \<open>X\<close> at position 2 is reported, and fixed
  with autofix.
\<close>

theorem C10_root_marker_counterexample:
  "check_for_duplicates root_marker_example False
     = Inr (root_marker_example, [[''s1'', ''s;1'', ''s2'', ''s;2'']]) \<and>
   check_for_duplicates root_marker_example True
     = Inr (root_marker_example\<lparr>seq_ranks_map :=
              [(''s1'', [''-'', ''P1'', ''X_P1'']), (''s2'', [''-'', ''P2'', ''X_P2''])]\<rparr>,
            [[''s1'', ''s;1'', ''s2'', ''s;2'', ''s;2''], [''s1'', ''s;1'', ''s1'', ''s;1'', ''s;1'']])"
  by code_simp

text \<open>
  Report-only mode: a call that returns leaves the store as it was, and
  \<open>check_for_disbalance\<close> always returns.
\<close>

lemma dup_visit_detect_tax: "dup_visit False sid i ranks s = Inr s' \<Longrightarrow> tax s' = tax s"
  by (auto simp: dup_visit_def err_bind_Inr_iff split: option.splits if_splits)

lemma dup_scan_detect_tax: "dup_scan False sid ps s = Inr s' \<Longrightarrow> tax s' = tax s"
proof (induction ps arbitrary: s)
  case Nil
  then show ?case by simp
next
  case (Cons i ps)
  then show ?case
    by (auto simp: err_bind_Inr_iff split: if_splits dest: dup_visit_detect_tax)
qed

lemma dup_outer_detect_tax: "dup_outer False sids s = Inr s' \<Longrightarrow> tax s' = tax s"
proof (induction sids arbitrary: s)
  case Nil
  then show ?case by simp
next
  case (Cons sid sids)
  then show ?case
    by (auto simp: err_bind_Inr_iff dest: dup_scan_detect_tax)
qed

lemma check_for_duplicates_detect_frame:
  "check_for_duplicates st False = Inr (st', report) \<Longrightarrow> st' = st"
  by (auto simp: check_for_duplicates_def err_bind_Inr_iff dest: dup_outer_detect_tax)

lemma fold_disbalance_detect:
  "fold (disbalance_step False) xs (m, errs) =
     (m, errs @ map (\<lambda>item. [fst item, lineage_str_of_sid (fst item)])
                   (filter (\<lambda>item. length (snd item) > 7) xs))"
  by (induction xs arbitrary: errs) (auto simp: disbalance_step_def)

lemma check_for_disbalance_detect_frame:
  "check_for_disbalance st False =
     (st, map (\<lambda>item. [fst item, lineage_str_of_sid (fst item)])
            (filter (\<lambda>item. length (snd item) > 7) (seq_ranks_map st)))"
  by (simp add: check_for_disbalance_def fold_disbalance_detect)

text \<open>
  C9 (the code breaks the claim): \<open>check_for_duplicates(autofix=False)\<close> does not always
  return a report. \<open>parent_map\<close> is keyed by the name alone, so a name first seen at
  position 1 of a two-level path and seen again at position 3 of another path makes the
  scan read position 2 of the two-level path: IndexError.
\<close>

theorem C9_detection_raises:
  "check_for_duplicates dup_index_error_example False = Inl IndexError"
  by code_simp

section \<open>guess_rank_level\<close>

lemma find_sorted_Min:
  "sorted ls \<Longrightarrow>
   find P ls = (if \<exists>x \<in> set ls. P x then Some (Min {x \<in> set ls. P x}) else None)"
proof (induction ls)
  case Nil
  then show ?case by simp
next
  case (Cons y ys)
  show ?case
  proof (cases "P y")
    case True
    have "Min {x \<in> set (y # ys). P x} = y"
      using True Cons.prems by (intro Min_eqI) auto
    then show ?thesis using True by simp
  next
    case False
    then have "{x \<in> set (y # ys). P x} = {x \<in> set ys. P x}" by auto
    then show ?thesis using False Cons by simp
  qed
qed

lemma first_match_find:
  "set ls \<subseteq> fst ` set tc \<Longrightarrow>
   first_match tc name ls = Inr (case find (entry_accepts tc name) ls of None \<Rightarrow> 0 | Some l \<Rightarrow> l)"
proof (induction ls)
  case Nil
  then show ?case by simp
next
  case (Cons l ls)
  then obtain sfx ex where e: "map_of tc l = Some (sfx, ex)"
    by (cases "map_of tc l") (auto simp: map_of_eq_None_iff)
  show ?case using Cons e
    by (simp add: err_bind_def dict_get_def entry_accepts_def)
qed

lemma entry_accepts_iff:
  "whole_exact_names tc name \<Longrightarrow> entry_accepts tc name lvl \<longleftrightarrow> level_matches tc lvl name"
proof -
  assume w: "whole_exact_names tc name"
  have "py_endswith_seq name sfx \<longleftrightarrow> (\<exists>s \<in> set (seq_names sfx). suffix s name)" for sfx
    by (cases sfx) (auto simp: py_endswith_seq_def seq_names_def list_ex_iff)
  moreover have "py_in name ex \<longleftrightarrow> name \<in> set (seq_names ex)"
    if "map_of tc lvl = Some (sfx, ex)" for sfx ex
  proof (cases ex)
    case (Str s)
    then show ?thesis using w that by (auto simp: py_in_def seq_names_def whole_exact_names_def)
  next
    case (Tup ss)
    then show ?thesis by (simp add: py_in_def seq_names_def)
  qed
  ultimately show ?thesis unfolding entry_accepts_def level_matches_def by auto
qed

lemma list_index_sorted:
  "sorted ls \<Longrightarrow> distinct ls \<Longrightarrow> pl \<in> set ls \<Longrightarrow>
   \<exists>idx. py_list_index ls pl = Inr idx \<and> drop (idx + 1) ls = filter (\<lambda>l. pl < l) ls"
proof (induction ls)
  case Nil
  then show ?case by simp
next
  case (Cons y ys)
  show ?case
  proof (cases "y = pl")
    case True
    have "\<forall>x \<in> set ys. pl < x"
    proof
      fix x assume x: "x \<in> set ys"
      then have "pl \<le> x" using Cons.prems(1) True by simp
      moreover have "x \<noteq> pl" using Cons.prems(2) True x by auto
      ultimately show "pl < x" by simp
    qed
    then have "filter (\<lambda>l. pl < l) ys = ys" by simp
    then show ?thesis using True by simp
  next
    case False
    then have in_ys: "pl \<in> set ys" using Cons.prems by simp
    then have "y \<le> pl" using Cons.prems(1) by simp
    then have "y < pl" using False by simp
    moreover obtain i where "py_list_index ys pl = Inr i" "drop (i + 1) ys = filter (\<lambda>l. pl < l) ys"
      using Cons.IH in_ys Cons.prems by auto
    ultimately show ?thesis using False by (simp add: err_bind_def)
  qed
qed

lemma next_std_backbone:
  assumes "distinct (map fst tc)" "pl \<in> fst ` set tc"
  shows "\<exists>idx. py_list_index (sort (map fst tc)) pl = Inr idx \<and>
           next_std_level (sort (map fst tc)) idx = backbone_above tc pl"
proof -
  let ?ls = "sort (map fst tc)"
  have s: "sorted ?ls" "distinct ?ls" "set ?ls = fst ` set tc" using assms(1) by simp_all
  obtain idx where i: "py_list_index ?ls pl = Inr idx" "drop (idx + 1) ?ls = filter (\<lambda>l. pl < l) ?ls"
    using list_index_sorted[OF s(1,2)] assms(2) s(3) by auto
  have sf: "sorted (filter (\<lambda>l. pl < l) ?ls)" using s(1) by (rule sorted_wrt_filter)
  have set_eq: "{x \<in> set (filter (\<lambda>l. pl < l) ?ls). x \<in> set STD_RANKS}
        = {l \<in> fst ` set tc. l \<in> set STD_RANKS \<and> pl < l}"
    using s(3) by auto
  have "next_std_level ?ls idx = backbone_above tc pl"
    unfolding next_std_level_def i(2) find_sorted_Min[OF sf] set_eq backbone_above_def
    using s(3) by auto
  then show ?thesis using i(1) by blast
qed

lemma guess_in_range:
  assumes "0 \<le> rank_level" "rank_level < int (length ranks)"
  shows "guess_rank_level tc ranks rank_level =
     err_bind (first_match tc (normalize_name (ranks ! nat rank_level)) (sort (map fst tc)))
       (\<lambda>real_level.
           if real_level = 0 then
             (if rank_level = 0 then Inr 1
              else
                (case guess_rank_level tc ranks (rank_level - 1) of
                   Inl e \<Rightarrow> Inl e
                 | Inr parent_level \<Rightarrow>
                     if parent_level = 0 then Inr 0
                     else err_bind (py_list_index (sort (map fst tc)) parent_level) (\<lambda>idx.
                            Inr (next_std_level (sort (map fst tc)) idx))))
           else Inr real_level)"
  using assms
  by (subst guess_rank_level.simps) (simp add: py_index_def err_bind_def Let_def)

lemma first_match_levels:
  assumes "distinct (map fst tc)" "0 \<notin> fst ` set tc" "whole_exact_names tc name"
  shows "first_match tc name (sort (map fst tc)) =
     Inr (if \<exists>lvl. level_matches tc lvl name then (LEAST lvl. level_matches tc lvl name) else 0)"
    and "(\<exists>lvl. level_matches tc lvl name) \<Longrightarrow> (LEAST lvl. level_matches tc lvl name) \<noteq> 0"
proof -
  let ?ls = "sort (map fst tc)"
  let ?P = "\<lambda>lvl. level_matches tc lvl name"
  have s: "sorted ?ls" "set ?ls = fst ` set tc" by simp_all
  have dom: "?P lvl \<Longrightarrow> lvl \<in> fst ` set tc" for lvl
    unfolding level_matches_def by (auto dest: map_of_SomeD intro: rev_image_eqI)
  have acc: "entry_accepts tc name = ?P"
    using entry_accepts_iff[OF assms(3)] by auto
  have set_eq: "{x \<in> set ?ls. ?P x} = {lvl. ?P lvl}" using dom s(2) by auto
  have fin: "finite {lvl. ?P lvl}" using set_eq[symmetric] by simp
  have fm: "first_match tc name ?ls = Inr (case find ?P ?ls of None \<Rightarrow> 0 | Some l \<Rightarrow> l)"
    using first_match_find[of ?ls tc name] s(2) acc by simp
  have ex_iff: "(\<exists>x \<in> set ?ls. ?P x) \<longleftrightarrow> (\<exists>lvl. ?P lvl)" using dom s(2) by auto
  have least: "(\<exists>lvl. ?P lvl) \<Longrightarrow> (LEAST lvl. ?P lvl) = Min {lvl. ?P lvl}"
    using fin by (intro Least_Min) auto
  show "first_match tc name ?ls = Inr (if \<exists>lvl. ?P lvl then (LEAST lvl. ?P lvl) else 0)"
    unfolding fm find_sorted_Min[OF s(1)] ex_iff set_eq using least by simp
  show "(LEAST lvl. ?P lvl) \<noteq> 0" if "\<exists>lvl. ?P lvl"
  proof -
    have "?P (LEAST lvl. ?P lvl)" using that by (metis LeastI)
    then show ?thesis using dom assms(2) by metis
  qed
qed

lemma find_Some_in: "find P xs = Some x \<Longrightarrow> x \<in> set xs"
  by (induction xs) (auto split: if_splits)

lemma guess_Suc:
  assumes "Suc n < length ranks"
  shows "guess_rank_level tc ranks (int (Suc n)) =
     err_bind (first_match tc (normalize_name (ranks ! Suc n)) (sort (map fst tc)))
       (\<lambda>real_level.
           if real_level = 0 then
                (case guess_rank_level tc ranks (int n) of
                   Inl e \<Rightarrow> Inl e
                 | Inr parent_level \<Rightarrow>
                     if parent_level = 0 then Inr 0
                     else err_bind (py_list_index (sort (map fst tc)) parent_level) (\<lambda>idx.
                            Inr (next_std_level (sort (map fst tc)) idx)))
           else Inr real_level)"
proof -
  have a: "0 \<le> int (Suc n)" "int (Suc n) < int (length ranks)" "int (Suc n) \<noteq> 0"
    "nat (int (Suc n)) = Suc n" "int (Suc n) - 1 = int n"
    using assms by simp_all
  show ?thesis
    unfolding guess_in_range[OF a(1,2)] a(4,5) using a(3) by (simp only: if_False)
qed

lemma first_match_range:
  assumes "set ls \<subseteq> fst ` set tc"
  shows "\<exists>r. first_match tc name ls = Inr r \<and> (r = 0 \<or> r \<in> set ls)"
proof (cases "find (entry_accepts tc name) ls")
  case None
  then show ?thesis using first_match_find[OF assms, of name] by simp
next
  case (Some l)
  then show ?thesis using first_match_find[OF assms, of name] find_Some_in[OF Some] by simp
qed

lemma guess_total:
  assumes "distinct (map fst tc)" "1 \<in> fst ` set tc"
  shows "n < length ranks \<Longrightarrow>
     \<exists>r. guess_rank_level tc ranks (int n) = Inr r \<and> (r = 0 \<or> r \<in> fst ` set tc)"
proof (induction n)
  case 0
  let ?ls = "sort (map fst tc)"
  have s: "set ?ls = fst ` set tc" by simp
  obtain r where r: "first_match tc (normalize_name (ranks ! 0)) ?ls = Inr r"
    and rin: "r = 0 \<or> r \<in> set ?ls"
    using first_match_range[of ?ls tc] s by blast
  show ?case using 0 assms(2) r rin s
    by (subst guess_in_range) (auto simp: err_bind_def)
next
  case (Suc n)
  let ?ls = "sort (map fst tc)"
  have s: "set ?ls = fst ` set tc" by simp
  obtain r where r: "first_match tc (normalize_name (ranks ! Suc n)) ?ls = Inr r"
    and rin: "r = 0 \<or> r \<in> set ?ls"
    using first_match_range[of ?ls tc] s by blast
  obtain pl where pl: "guess_rank_level tc ranks (int n) = Inr pl" "pl = 0 \<or> pl \<in> fst ` set tc"
    using Suc by auto
  have g: "guess_rank_level tc ranks (int (Suc n)) =
      (if r = 0 then (if pl = 0 then Inr 0
          else err_bind (py_list_index ?ls pl) (\<lambda>idx. Inr (next_std_level ?ls idx)))
       else Inr r)"
    using r pl(1) unfolding guess_Suc[OF Suc.prems] by (simp add: err_bind_def)
  show ?case
  proof (cases "r = 0 \<and> pl \<noteq> 0")
    case False
    then show ?thesis using g rin s by auto
  next
    case True
    then have "pl \<in> fst ` set tc" using pl(2) by simp
    then obtain idx where i: "py_list_index ?ls pl = Inr idx"
       "next_std_level ?ls idx = backbone_above tc pl"
      using next_std_backbone[OF assms(1)] by blast
    have "backbone_above tc pl = 0 \<or> backbone_above tc pl \<in> fst ` set tc"
    proof (cases "\<exists>l \<in> fst ` set tc. l \<in> set STD_RANKS \<and> pl < l")
      case True
      then have "Min {l \<in> fst ` set tc. l \<in> set STD_RANKS \<and> pl < l}
                   \<in> {l \<in> fst ` set tc. l \<in> set STD_RANKS \<and> pl < l}"
        by (intro Min_in) auto
      moreover have "backbone_above tc pl = Min {l \<in> fst ` set tc. l \<in> set STD_RANKS \<and> pl < l}"
        unfolding backbone_above_def using True by (simp only: if_True)
      ultimately show ?thesis by simp
    next
      case False
      then have "backbone_above tc pl = 0" unfolding backbone_above_def by (simp only: if_False)
      then show ?thesis by simp
    qed
    then show ?thesis using g True i rin s by (auto simp: err_bind_def)
  qed
qed

text \<open>
  C7 (amended): for a code table (distinct levels, none of them 0), a rank list and a
  position inside it, where the normalized name is no proper part of an exact-match entry
  written as a bare string: \<open>guess_rank_level\<close> returns the least level of the table whose
  suffix set or exact-match set matches the normalized name; if no level matches it
  returns 1 at position 0, and otherwise resolves the parent position first, returning 0
  when the parent level is 0 and else the smallest level of the code's own table that is
  a standard-backbone level greater than the parent level (0 if there is none). With
  level 1 in the table the call returns, with 0 or a level of the table.
\<close>

theorem C7_guess_rank_level:
  assumes "distinct (map fst tc)" and "0 \<notin> fst ` set tc"
      and "0 \<le> rank_level" and "rank_level < int (length ranks)"
      and "whole_exact_names tc (normalize_name (ranks ! nat rank_level))"
  shows "guess_rank_level tc ranks rank_level =
    (let name = normalize_name (ranks ! nat rank_level) in
     if \<exists>lvl. level_matches tc lvl name then Inr (LEAST lvl. level_matches tc lvl name)
     else if rank_level = 0 then Inr 1
     else (case guess_rank_level tc ranks (rank_level - 1) of
             Inl e \<Rightarrow> Inl e
           | Inr parent_level \<Rightarrow>
               if parent_level = 0 then Inr 0
               else if parent_level \<in> fst ` set tc then Inr (backbone_above tc parent_level)
               else Inl ValueError)) \<and>
    (1 \<in> fst ` set tc \<longrightarrow>
       (\<exists>r. guess_rank_level tc ranks rank_level = Inr r \<and> (r = 0 \<or> r \<in> fst ` set tc)))"
proof
  let ?name = "normalize_name (ranks ! nat rank_level)"
  let ?ls = "sort (map fst tc)"
  note fm = first_match_levels[OF assms(1,2,5)]
  have idx: "err_bind (py_list_index ?ls pl) (\<lambda>idx. Inr (next_std_level ?ls idx))
        = (if pl \<in> fst ` set tc then Inr (backbone_above tc pl) else Inl ValueError)" for pl
  proof (cases "pl \<in> fst ` set tc")
    case True
    then show ?thesis using next_std_backbone[OF assms(1), of pl] by (auto simp: err_bind_def)
  next
    case False
    have "x \<notin> set xs \<Longrightarrow> py_list_index xs x = Inl ValueError" for xs and x :: nat
      by (induction xs) (auto simp: err_bind_def)
    then show ?thesis using False by (simp add: err_bind_def)
  qed
  show "guess_rank_level tc ranks rank_level =
    (let name = ?name in
     if \<exists>lvl. level_matches tc lvl name then Inr (LEAST lvl. level_matches tc lvl name)
     else if rank_level = 0 then Inr 1
     else (case guess_rank_level tc ranks (rank_level - 1) of
             Inl e \<Rightarrow> Inl e
           | Inr parent_level \<Rightarrow>
               if parent_level = 0 then Inr 0
               else if parent_level \<in> fst ` set tc then Inr (backbone_above tc parent_level)
               else Inl ValueError))"
  proof (cases "\<exists>lvl. level_matches tc lvl ?name")
    case True
    then show ?thesis
      unfolding guess_in_range[OF assms(3,4)] fm(1) Let_def
      using fm(2) by (simp add: err_bind_def)
  next
    case False
    then show ?thesis
      unfolding guess_in_range[OF assms(3,4)] fm(1) Let_def
      by (simp add: err_bind_def[of "Inr _"] idx split: sum.splits)
  qed
  show "1 \<in> fst ` set tc \<longrightarrow>
       (\<exists>r. guess_rank_level tc ranks rank_level = Inr r \<and> (r = 0 \<or> r \<in> fst ` set tc))"
    using guess_total[OF assms(1), of "nat rank_level" ranks] assms(3,4) by auto
qed

lemma whole_exact_names_list:
  assumes "distinct (map fst tc)"
  shows "whole_exact_names tc name \<longleftrightarrow>
     list_all (\<lambda>(lvl, sfx, ex). case ex of Str s \<Rightarrow> sublist name s \<longrightarrow> name = s | Tup ss \<Rightarrow> True) tc"
proof -
  have m: "map_of tc lvl = Some v \<longleftrightarrow> (lvl, v) \<in> set tc" for lvl v
    using assms by simp
  show ?thesis
    unfolding whole_exact_names_def m list_all_iff
    by (auto split: pyseq.splits)
qed

lemma level_matches_list:
  assumes "distinct (map fst tc)"
  shows "(\<exists>lvl. level_matches tc lvl name) \<longleftrightarrow>
     list_ex (\<lambda>(lvl, sfx, ex). list_ex (\<lambda>s. suffix s name) (seq_names sfx) \<or> name \<in> set (seq_names ex)) tc"
proof -
  have m: "map_of tc lvl = Some v \<longleftrightarrow> (lvl, v) \<in> set tc" for lvl v
    using assms by simp
  show ?thesis
    unfolding level_matches_def m list_ex_iff by fastforce
qed

lemma vir_keys: "map fst VIR_TAX_CODE = [1, 4, 5, 7, 12, 13, 18, 19, 21, 22]"
  by code_simp

lemma bac_keys: "map fst BAC_TAX_CODE = [1, 2, 4, 5, 7, 8, 12, 13, 18, 19, 20, 21, 22]"
  by code_simp

theorem C7_guess_rank_level_witness:
  "guess_rank_level VIR_TAX_CODE [''Viruses'', ''Foo''] 1 = Inr (backbone_above VIR_TAX_CODE 1) \<and>
   backbone_above VIR_TAX_CODE 1 = 4 \<and>
   guess_rank_level BAC_TAX_CODE [''Bacteria'', ''Firmicutes'', ''Clostridia'', ''Clostridiales''] 3
     = Inr (LEAST lvl. level_matches BAC_TAX_CODE lvl ''clostridiales'') \<and>
   (LEAST lvl. level_matches BAC_TAX_CODE lvl ''clostridiales'') = 7"
proof -
  let ?v = "[''Viruses'', ''Foo'']" and ?b = "[''Bacteria'', ''Firmicutes'', ''Clostridia'', ''Clostridiales'']"
  have dv: "distinct (map fst VIR_TAX_CODE)" and zv: "0 \<notin> fst ` set VIR_TAX_CODE"
    and ov: "1 \<in> fst ` set VIR_TAX_CODE"
    using vir_keys by (simp_all flip: set_map)
  have db: "distinct (map fst BAC_TAX_CODE)" and zb: "0 \<notin> fst ` set BAC_TAX_CODE"
    using bac_keys by (simp_all flip: set_map)
  have nv: "normalize_name (?v ! nat 1) = ''foo''" and nb: "normalize_name (?b ! nat 3) = ''clostridiales''"
    by code_simp+
  have wv: "whole_exact_names VIR_TAX_CODE ''foo''"
    unfolding whole_exact_names_list[OF dv] by code_simp
  have wb: "whole_exact_names BAC_TAX_CODE ''clostridiales''"
    unfolding whole_exact_names_list[OF db] by code_simp
  have mv: "\<not> (\<exists>lvl. level_matches VIR_TAX_CODE lvl ''foo'')"
    unfolding level_matches_list[OF dv] by code_simp
  have mb: "\<exists>lvl. level_matches BAC_TAX_CODE lvl ''clostridiales''"
    unfolding level_matches_list[OF db] by code_simp
  have pv: "guess_rank_level VIR_TAX_CODE ?v (1 - 1) = Inr 1"
    by code_simp
  have ev: "guess_rank_level VIR_TAX_CODE ?v 1 = Inr 4"
    and eb: "guess_rank_level BAC_TAX_CODE ?b 3 = Inr 7"
    by code_simp+
  have tv: "guess_rank_level VIR_TAX_CODE ?v 1 = Inr (backbone_above VIR_TAX_CODE 1)"
    using C7_guess_rank_level[OF dv zv, of 1 ?v] wv mv pv ov unfolding nv by simp
  have tb: "guess_rank_level BAC_TAX_CODE ?b 3 = Inr (LEAST lvl. level_matches BAC_TAX_CODE lvl ''clostridiales'')"
    using C7_guess_rank_level[OF db zb, of 3 ?b] wb mb unfolding nb by simp
  show ?thesis using tv tb ev eb by simp
qed

text \<open>
  The claim as stated fails for the viral code, whose table has no phylum level: below
  the kingdom \<open>Viruses\<close> an unrecognised name is given level 4, while the smallest
  standard-backbone level above 1 is 2.
\<close>

theorem C7_viral_fallback_counterexample:
  "guess_rank_level VIR_TAX_CODE [''Viruses'', ''Foo''] 0 = Inr 1 \<and>
   guess_rank_level VIR_TAX_CODE [''Viruses'', ''Foo''] 1 = Inr 4 \<and>
   std_above 1 = 2"
  by code_simp

text \<open>
  The exact-match entry of the zoological kingdom is written \<open>("animalia")\<close>, a string:
  any part of it, the empty name included, is taken for the kingdom.
\<close>

lemma zoo_kingdom_substring:
  "guess_rank_level ZOO_TAX_CODE [''Animalia'', ''Mali''] 1 = Inr 1 \<and>
   guess_rank_level ZOO_TAX_CODE [''Animalia'', ''Chordata'', ''-''] 2 = Inr 1"
  by code_simp

section \<open>TaxTreeBuilder.build\<close>

lemma skip_empty_lowest_from:
  "n \<le> length ranks \<Longrightarrow> 0 \<le> lowest_from ranks n \<Longrightarrow>
   skip_empty ranks (int n - 1) = Inr (lowest_from ranks n)"
proof (induction n)
  case 0
  then show ?case by simp
next
  case (Suc n)
  have ix: "py_index ranks (int n) = Inr (ranks ! n)" using Suc.prems by (simp add: py_index_def)
  show ?case
  proof (cases "ranks ! n = EMPTY_RANK")
    case True
    then have "skip_empty ranks (int n - 1) = Inr (lowest_from ranks n)"
      using Suc by simp
    then show ?thesis using True Suc.prems ix
      by (subst skip_empty.simps) simp
  next
    case False
    then show ?thesis using Suc.prems ix
      by (subst skip_empty.simps) simp
  qed
qed

lemma skip_empty_lowest:
  "0 \<le> lowest_assigned_rank_level ranks \<Longrightarrow>
   skip_empty ranks (int (length ranks) - 1) = Inr (lowest_assigned_rank_level ranks)"
  unfolding lowest_assigned_rank_level_def by (rule skip_empty_lowest_from) simp_all

lemma skip_empty_fix:
  "0 \<le> pl \<Longrightarrow> pl < int (length ranks) \<Longrightarrow> ranks ! nat pl \<noteq> EMPTY_RANK \<Longrightarrow>
   skip_empty ranks pl = Inr pl"
  by (subst skip_empty.simps) (simp add: py_index_def)

lemma py_index_in_set: "py_index ranks i = Inr v \<Longrightarrow> v \<in> set ranks"
  by (auto simp: py_index_def split: if_splits)

lemma clade_matches_iff:
  "clade_matches ranks cs = Inr r \<Longrightarrow> r \<longleftrightarrow> (\<exists>(l, n) \<in> set cs. py_index ranks l = Inr n)"
proof (induction cs)
  case Nil
  then show ?case by simp
next
  case (Cons c cs)
  obtain l n where c: "c = (l, n)" by (cases c)
  obtain v where v: "py_index ranks l = Inr v"
    and rest: "(if v = n then Inr True else clade_matches ranks cs) = Inr r"
    using Cons.prems c by (auto simp: err_bind_Inr_iff)
  show ?case
  proof (cases "v = n")
    case True
    then show ?thesis using rest v c by auto
  next
    case False
    then have "r \<longleftrightarrow> (\<exists>(l, n) \<in> set cs. py_index ranks l = Inr n)"
      using Cons.IH rest by simp
    then show ?thesis using False v c by auto
  qed
qed

lemma add_tree_node_effect:
  "add_tree_node b nodeId ranks rank_level = Inr (b', n) \<Longrightarrow>
     leaf_count b' = leaf_count b \<and> seq_ids b' = seq_ids b \<and>
     (\<forall>k. map_of (tree_nodes b) k \<noteq> None \<longrightarrow> map_of (tree_nodes b') k \<noteq> None) \<and>
     (0 \<le> rank_level \<longrightarrow>
        (\<forall>pl. skip_empty ranks rank_level = Inr pl \<longrightarrow>
           map_of (tree_nodes b') (get_rank_uid ranks pl) \<noteq> None))"
proof (induction b nodeId ranks rank_level arbitrary: b' n rule: add_tree_node.induct)
  case (1 b nodeId ranks rank_level)
  note run = "1.prems"[unfolded add_tree_node.simps[of b nodeId ranks rank_level]]
  show ?case
  proof (cases "0 \<le> rank_level")
    case False
    then obtain pn where "map_of (tree_nodes b) ROOT_LABEL = Some pn" "(b', n) = add_child b pn nodeId"
      using run by (auto split: option.splits)
    then show ?thesis using False by (auto simp: add_child_def)
  next
    case True
    then obtain pl where pl: "skip_empty ranks rank_level = Inr pl"
      using run by (auto split: sum.splits)
    let ?pid = "get_rank_uid ranks pl"
    show ?thesis
    proof (cases "map_of (tree_nodes b) ?pid")
      case (Some pn)
      then have "(b', n) = add_child b pn nodeId" using run True pl by simp
      then show ?thesis using Some pl by (auto simp: add_child_def)
    next
      case None
      then obtain b1 pn where rec: "add_tree_node b ?pid ranks (pl - 1) = Inr (b1, pn)"
        and res: "(b', n) = add_child (b1\<lparr>tree_nodes := dict_set (tree_nodes b1) ?pid pn\<rparr>) pn nodeId"
        using run True pl by (auto split: sum.splits)
      have ih: "leaf_count b1 = leaf_count b \<and> seq_ids b1 = seq_ids b \<and>
         (\<forall>k. map_of (tree_nodes b) k \<noteq> None \<longrightarrow> map_of (tree_nodes b1) k \<noteq> None)"
        using "1.IH"[OF True pl None rec] by simp
      show ?thesis using res ih pl
        by (auto simp: add_child_def dict_set_def update_conv')
    qed
  qed
qed

lemma uid_lowest:
  "0 \<le> lowest_assigned_rank_level ranks \<Longrightarrow>
   get_rank_uid ranks (lowest_assigned_rank_level ranks) = get_rank_uid ranks (- 1)"
  by (simp add: get_rank_uid_def)

lemma passes_lowest:
  "passes_filters min_rank incl ign ranks \<Longrightarrow> 0 \<le> lowest_assigned_rank_level ranks"
proof -
  assume "passes_filters min_rank incl ign ranks"
  then have "\<exists>v. py_index ranks min_rank = Inr v \<and> v \<noteq> EMPTY_RANK"
    unfolding passes_filters_def by (rule conjunct1)
  then obtain v where "py_index ranks min_rank = Inr v" "v \<noteq> EMPTY_RANK" by blast
  then have "v \<in> set ranks" "v \<noteq> EMPTY_RANK" by (simp_all add: py_index_in_set)
  then show ?thesis unfolding lowest_nonneg_iff by blast
qed

text \<open>What one run of the loop body does to the builder.\<close>

lemma err_bindE:
  assumes "err_bind m f = Inr y"
  obtains x where "m = Inr x" and "f x = Inr y"
  using assms by (cases m) (simp_all add: err_bind_def)

lemma clade_is_ok_iff:
  assumes "clade_is_ok ranks incl ign = Inr ok"
  shows "ok \<longleftrightarrow> (incl = [] \<or> (\<exists>(l, n) \<in> set incl. py_index ranks l = Inr n)) \<and>
              \<not> (\<exists>(l, n) \<in> set ign. py_index ranks l = Inr n)"
proof -
  obtain included where
    inc: "(if incl \<noteq> [] then clade_matches ranks incl else Inr True) = Inr included"
    and r: "(if included
               then err_bind (clade_matches ranks ign) (\<lambda>ignored. Inr (\<not> ignored))
               else Inr False) = Inr ok"
    using assms unfolding clade_is_ok_def by (rule err_bindE)
  have inc_iff: "included \<longleftrightarrow> incl = [] \<or> (\<exists>(l, n) \<in> set incl. py_index ranks l = Inr n)"
    using inc clade_matches_iff[of ranks incl included] by (auto split: if_splits)
  show ?thesis
  proof (cases included)
    case True
    then obtain ignored where "clade_matches ranks ign = Inr ignored" "ok = (\<not> ignored)"
      using r by (auto simp: err_bind_Inr_iff)
    then show ?thesis using True inc_iff clade_matches_iff[of ranks ign ignored] by simp
  next
    case False
    then show ?thesis using r inc_iff by simp
  qed
qed

lemma place_leaf_result:
  assumes "place_leaf max_seqs b sid ranks (lowest_assigned_rank_level ranks) = Inr b'"
    and low: "0 \<le> lowest_assigned_rank_level ranks"
  shows "if map_of (tree_nodes b) (get_rank_uid ranks (- 1)) \<noteq> None \<and>
            lowest_assigned_rank_level ranks = int (length ranks) - 1 \<and>
            quota_reached b max_seqs (get_rank_uid ranks (- 1))
         then b' = b
         else step_includes b sid (get_rank_uid ranks (- 1)) b'"
proof -
  let ?pl = "lowest_assigned_rank_level ranks"
  let ?p = "get_rank_uid ranks (- 1)"
  have q: "(case map_of (leaf_count b) ?p of None \<Rightarrow> False | Some c \<Rightarrow> max_seqs \<le> c)
                 \<longleftrightarrow> quota_reached b max_seqs ?p"
    by (auto simp: quota_reached_def split: option.splits)
  let ?b1 = "b\<lparr>leaf_count := dict_set (leaf_count b) ?p
                            (dict_get_default (leaf_count b) ?p 0 + 1)\<rparr>"
  have r3: "(if map_of (tree_nodes b) ?p \<noteq> None \<and> ?pl = int (length ranks) - 1 \<and>
                   quota_reached b max_seqs ?p
        then Inr b
        else err_bind (add_tree_node ?b1 sid ranks ?pl) (\<lambda>(b', newNode).
          Inr (b'\<lparr>seq_ids := seq_ids b' @ [sid]\<rparr>))) = Inr b'"
    using assms(1) unfolding place_leaf_def Let_def uid_lowest[OF low] q .
  show ?thesis
  proof (cases "map_of (tree_nodes b) ?p \<noteq> None \<and> ?pl = int (length ranks) - 1 \<and>
                   quota_reached b max_seqs ?p")
    case True
    then show ?thesis using r3 by simp
  next
    case False
    obtain b2 n where a: "add_tree_node ?b1 sid ranks ?pl = Inr (b2, n)"
      and b': "b' = b2\<lparr>seq_ids := seq_ids b2 @ [sid]\<rparr>"
      using r3 False by (auto simp: err_bind_Inr_iff)
    have fx: "skip_empty ranks ?pl = Inr ?pl"
      using low lowest_level_bounds[of ranks] lowest_nonempty[OF low]
      by (intro skip_empty_fix) auto
    have eff: "leaf_count b2 = leaf_count ?b1" "seq_ids b2 = seq_ids ?b1"
      "\<forall>k. map_of (tree_nodes ?b1) k \<noteq> None \<longrightarrow> map_of (tree_nodes b2) k \<noteq> None"
      "map_of (tree_nodes b2) (get_rank_uid ranks ?pl) \<noteq> None"
      using add_tree_node_effect[OF a] low fx by auto
    have inc: "step_includes b sid ?p b'"
      unfolding step_includes_def b' using eff uid_lowest[OF low] by simp
    show ?thesis by (subst if_not_P[OF False]) (rule inc)
  qed
qed

lemma build_step_result:
  assumes "build_step min_rank max_seqs incl ign b (sid, ranks) = Inr b'"
  shows "if passes_filters min_rank incl ign ranks
         then (if map_of (tree_nodes b) (get_rank_uid ranks (- 1)) \<noteq> None \<and>
                  lowest_assigned_rank_level ranks = int (length ranks) - 1 \<and>
                  quota_reached b max_seqs (get_rank_uid ranks (- 1))
               then b' = b
               else step_includes b sid (get_rank_uid ranks (- 1)) b')
         else b' = b"
proof -
  obtain v where v: "py_index ranks min_rank = Inr v"
    and r1: "(if v = EMPTY_RANK then Inr b
     else err_bind (clade_is_ok ranks incl ign) (\<lambda>ok.
       if \<not> ok then Inr b
       else err_bind (skip_empty ranks (int (length ranks) - 1)) (\<lambda>parent_level.
              place_leaf max_seqs b sid ranks parent_level))) = Inr b'"
    using assms unfolding build_step_def prod.case by (rule err_bindE)
  show ?thesis
  proof (cases "v = EMPTY_RANK")
    case True
    then have "\<not> passes_filters min_rank incl ign ranks" using v by (simp add: passes_filters_def)
    then show ?thesis using True r1 by simp
  next
    case nonempty: False
    obtain ok where ok: "clade_is_ok ranks incl ign = Inr ok"
      and r2: "(if \<not> ok then Inr b
       else err_bind (skip_empty ranks (int (length ranks) - 1)) (\<lambda>parent_level.
              place_leaf max_seqs b sid ranks parent_level)) = Inr b'"
      using r1 unfolding if_not_P[OF nonempty] by (rule err_bindE)
    have pass_iff: "passes_filters min_rank incl ign ranks \<longleftrightarrow> ok"
      unfolding passes_filters_def clade_is_ok_iff[OF ok] using v nonempty by auto
    show ?thesis
    proof (cases ok)
      case False
      then show ?thesis using r2 pass_iff by simp
    next
      case True
      then have pass: "passes_filters min_rank incl ign ranks" using pass_iff by simp
      have low: "0 \<le> lowest_assigned_rank_level ranks" using pass by (rule passes_lowest)
      have pl: "place_leaf max_seqs b sid ranks (lowest_assigned_rank_level ranks) = Inr b'"
        using r2 True skip_empty_lowest[OF low] by (simp add: err_bind_def)
      show ?thesis using place_leaf_result[OF pl low] pass by simp
    qed
  qed
qed

lemma step_includes_inv:
  assumes "step_includes b sid p0 b'" "counted_nodes_known b"
  shows "counted_nodes_known b'"
    and "quota_reached b mx p \<Longrightarrow> quota_reached b' mx p"
    and "seq_ids b' = seq_ids b @ [sid]"
proof -
  have lc: "map_of (leaf_count b') = (map_of (leaf_count b))(p0 \<mapsto> dict_get_default (leaf_count b) p0 0 + 1)"
    using assms(1) by (simp add: step_includes_def dict_set_def update_conv')
  have tn: "\<forall>k. map_of (tree_nodes b) k \<noteq> None \<longrightarrow> map_of (tree_nodes b') k \<noteq> None"
    "map_of (tree_nodes b') p0 \<noteq> None"
    using assms(1) by (simp_all add: step_includes_def)
  show "counted_nodes_known b'"
    using assms(2) tn unfolding counted_nodes_known_def lc by auto
  show "seq_ids b' = seq_ids b @ [sid]" using assms(1) by (simp add: step_includes_def)
  show "quota_reached b' mx p" if q: "quota_reached b mx p"
  proof -
    obtain c where c: "map_of (leaf_count b) p = Some c" "mx \<le> c"
      using q by (auto simp: quota_reached_def)
    show ?thesis
    proof (cases "p = p0")
      case True
      then have "map_of (leaf_count b') p = Some (c + 1)"
        using c(1) by (simp add: lc dict_get_default_def)
      then show ?thesis using c(2) by (simp add: quota_reached_def)
    next
      case False
      then show ?thesis using c by (simp add: lc quota_reached_def)
    qed
  qed
qed

lemma build_step_inv:
  assumes "build_step mr mx incl ign b (sid, ranks) = Inr b'" "counted_nodes_known b"
  shows "counted_nodes_known b'"
    and "quota_reached b mx p \<Longrightarrow> quota_reached b' mx p"
    and "set (seq_ids b') \<subseteq> set (seq_ids b) \<union> {s. s = sid \<and> passes_filters mr incl ign ranks}"
    and "set (seq_ids b) \<subseteq> set (seq_ids b')"
proof -
  have c: "b' = b \<or> (passes_filters mr incl ign ranks \<and> step_includes b sid (get_rank_uid ranks (- 1)) b')"
    using build_step_result[OF assms(1)] by (auto split: if_splits)
  show "counted_nodes_known b'" using c assms(2) step_includes_inv(1) by blast
  show "quota_reached b' mx p" if "quota_reached b mx p"
    using c that assms(2) step_includes_inv(2) by blast
  show "set (seq_ids b') \<subseteq> set (seq_ids b) \<union> {s. s = sid \<and> passes_filters mr incl ign ranks}"
    using c step_includes_inv(3)[OF _ assms(2)] by auto
  show "set (seq_ids b) \<subseteq> set (seq_ids b')"
    using c step_includes_inv(3)[OF _ assms(2)] by auto
qed

lemma build_loop_inv:
  "build_loop mr mx incl ign items b = Inr b' \<Longrightarrow> counted_nodes_known b \<Longrightarrow>
   counted_nodes_known b' \<and>
   (quota_reached b mx p \<longrightarrow> quota_reached b' mx p) \<and>
   set (seq_ids b') \<subseteq> set (seq_ids b) \<union>
      {sid. \<exists>ranks. (sid, ranks) \<in> set items \<and> passes_filters mr incl ign ranks} \<and>
   set (seq_ids b) \<subseteq> set (seq_ids b')"
proof (induction items arbitrary: b)
  case Nil
  then show ?case by simp
next
  case (Cons item items)
  obtain sid ranks where item: "item = (sid, ranks)" by (cases item)
  obtain b1 where s: "build_step mr mx incl ign b (sid, ranks) = Inr b1"
    and l: "build_loop mr mx incl ign items b1 = Inr b'"
    using Cons.prems(1) unfolding item build_loop.simps by (rule err_bindE)
  note st = build_step_inv[OF s Cons.prems(2)]
  note ih = Cons.IH[OF l st(1)]
  show ?case
  proof (intro conjI impI)
    show "counted_nodes_known b'" using ih by simp
    show "quota_reached b' mx p" if "quota_reached b mx p" using ih st(2)[OF that] by simp
    show "set (seq_ids b') \<subseteq> set (seq_ids b) \<union>
      {sid. \<exists>ranks. (sid, ranks) \<in> set (item # items) \<and> passes_filters mr incl ign ranks}"
      using ih st(3) unfolding item by (auto simp: subset_iff)
    show "set (seq_ids b) \<subseteq> set (seq_ids b')" using ih st(4) by (auto simp: subset_iff)
  qed
qed

lemma build_loop_append:
  "build_loop mr mx incl ign (xs @ ys) b
     = err_bind (build_loop mr mx incl ign xs b) (build_loop mr mx incl ign ys)"
proof (induction xs arbitrary: b)
  case Nil
  then show ?case by (simp add: err_bind_def)
next
  case (Cons x xs)
  then show ?case
    by (cases "build_step mr mx incl ign b x") (simp_all add: err_bind_def)
qed

lemma build_init_known: "counted_nodes_known build_init"
  by (simp add: counted_nodes_known_def build_init_def)

text \<open>
  C8: when \<open>build\<close> returns on a store with distinct sequence identifiers, every
  identifier of the returned list belongs to a sequence of the store whose RankPath
  passes the filters (non-empty entry at \<open>min_rank\<close>, a match in \<open>clades_to_include\<close>
  unless it is empty, no match in \<open>clades_to_ignore\<close>). The quota is applied only to
  sequences whose lowest assigned level is their path length minus one: a sequence
  that passes the filters and whose lowest assigned level is another one is always
  in the returned list. Once the leaf count of a parent has reached
  \<open>max_seqs_per_leaf\<close> (after the prefix \<open>pre\<close> of the iteration), every later sequence
  under that parent with its lowest assigned level at path length minus one is
  skipped: the loop body leaves the builder as it is, so no node is added to the
  tree, and the identifier is not in the returned list.
\<close>

theorem C8_build_filters_and_quota:
  assumes "distinct (map fst (seq_ranks_map st))"
      and "build st min_rank max_seqs incl ign = Inr (tree, ids)"
  shows "(\<forall>sid \<in> set ids. \<exists>ranks. (sid, ranks) \<in> set (seq_ranks_map st) \<and>
            passes_filters min_rank incl ign ranks) \<and>
         (\<forall>pre sid ranks post.
            seq_ranks_map st = pre @ (sid, ranks) # post \<and>
            passes_filters min_rank incl ign ranks \<and>
            lowest_assigned_rank_level ranks \<noteq> int (length ranks) - 1
            \<longrightarrow> sid \<in> set ids) \<and>
         (\<forall>pre mid sid ranks post b.
            seq_ranks_map st = pre @ mid @ (sid, ranks) # post \<and>
            build_loop min_rank max_seqs incl ign pre build_init = Inr b \<and>
            quota_reached b max_seqs (get_rank_uid ranks (- 1)) \<and>
            lowest_assigned_rank_level ranks = int (length ranks) - 1
            \<longrightarrow> sid \<notin> set ids \<and>
                (\<exists>b'. build_loop min_rank max_seqs incl ign (pre @ mid) build_init = Inr b' \<and>
                      build_step min_rank max_seqs incl ign b' (sid, ranks) = Inr b'))"
    (is "?A \<and> ?B \<and> ?C")
proof -
  let ?loop = "build_loop min_rank max_seqs incl ign"
  let ?pass = "passes_filters min_rank incl ign"
  obtain bf where bf: "?loop (seq_ranks_map st) build_init = Inr bf" and ids: "ids = seq_ids bf"
    using assms(2) unfolding build_def by (auto elim: err_bindE)
  have A: ?A
  proof (intro ballI)
    fix sid assume "sid \<in> set ids"
    then show "\<exists>ranks. (sid, ranks) \<in> set (seq_ranks_map st) \<and> ?pass ranks"
      using build_loop_inv[OF bf build_init_known, of undefined] ids
      by (auto simp: build_init_def)
  qed
  have B: ?B
  proof (intro allI impI)
    fix pre sid ranks post
    assume a: "seq_ranks_map st = pre @ (sid, ranks) # post \<and> ?pass ranks \<and>
            lowest_assigned_rank_level ranks \<noteq> int (length ranks) - 1"
    have "err_bind (?loop pre build_init) (?loop ((sid, ranks) # post)) = Inr bf"
      using bf a by (simp add: build_loop_append del: build_loop.simps)
    then obtain b where b: "?loop pre build_init = Inr b"
      and r: "?loop ((sid, ranks) # post) b = Inr bf"
      by (rule err_bindE)
    obtain b1 where s: "build_step min_rank max_seqs incl ign b (sid, ranks) = Inr b1"
      and l: "?loop post b1 = Inr bf"
      using r unfolding build_loop.simps by (rule err_bindE)
    have kb: "counted_nodes_known b"
      using build_loop_inv[OF b build_init_known, of undefined] by simp
    have "step_includes b sid (get_rank_uid ranks (- 1)) b1"
      using build_step_result[OF s] a by simp
    then have "sid \<in> set (seq_ids b1)" by (simp add: step_includes_def)
    moreover have "set (seq_ids b1) \<subseteq> set (seq_ids bf)"
      using build_loop_inv[OF l build_step_inv(1)[OF s kb], of undefined] by simp
    ultimately show "sid \<in> set ids" using ids by auto
  qed
  have C: ?C
  proof (intro allI impI)
    fix pre mid sid ranks post b
    assume a: "seq_ranks_map st = pre @ mid @ (sid, ranks) # post \<and>
            ?loop pre build_init = Inr b \<and>
            quota_reached b max_seqs (get_rank_uid ranks (- 1)) \<and>
            lowest_assigned_rank_level ranks = int (length ranks) - 1"
    let ?p = "get_rank_uid ranks (- 1)"
    have split: "seq_ranks_map st = (pre @ mid) @ (sid, ranks) # post" using a by simp
    have "err_bind (?loop (pre @ mid) build_init) (?loop ((sid, ranks) # post)) = Inr bf"
      using bf unfolding split build_loop_append[of _ _ _ _ "pre @ mid"] .
    then obtain b2 where b2: "?loop (pre @ mid) build_init = Inr b2"
      and r: "?loop ((sid, ranks) # post) b2 = Inr bf"
      by (rule err_bindE)
    obtain b3 where s: "build_step min_rank max_seqs incl ign b2 (sid, ranks) = Inr b3"
      and l: "?loop post b3 = Inr bf"
      using r unfolding build_loop.simps by (rule err_bindE)
    have m: "?loop mid b = Inr b2"
      using b2 a unfolding build_loop_append[of _ _ _ _ pre] by (simp add: err_bind_def)
    have kb: "counted_nodes_known b"
      using build_loop_inv[of min_rank max_seqs incl ign pre build_init b undefined] a build_init_known
      by simp
    have i2: "counted_nodes_known b2" "quota_reached b2 max_seqs ?p"
      using build_loop_inv[OF m kb, of ?p] a by simp_all
    then have known: "map_of (tree_nodes b2) ?p \<noteq> None"
      unfolding counted_nodes_known_def quota_reached_def by auto
    have same: "b3 = b2"
      using build_step_result[OF s] known i2(2) a by (auto split: if_splits)
    have ids2: "set (seq_ids b2) \<subseteq> {s. \<exists>r. (s, r) \<in> set (pre @ mid) \<and> ?pass r}"
      using build_loop_inv[OF b2 build_init_known, of undefined] by (auto simp: build_init_def)
    have idsf: "set (seq_ids bf) \<subseteq> set (seq_ids b2) \<union> {s. \<exists>r. (s, r) \<in> set post \<and> ?pass r}"
      using build_loop_inv[OF l, of undefined] i2(1) same by simp
    have d: "sid \<notin> fst ` set (pre @ mid)" "sid \<notin> fst ` set post"
      using assms(1) unfolding split by auto
    have "sid \<notin> set (seq_ids bf)"
    proof
      assume "sid \<in> set (seq_ids bf)"
      then have "(\<exists>r. (sid, r) \<in> set (pre @ mid)) \<or> (\<exists>r. (sid, r) \<in> set post)"
        using ids2 idsf by blast
      then show False using d by (auto intro: rev_image_eqI)
    qed
    then show "sid \<notin> set ids \<and>
                (\<exists>b'. ?loop (pre @ mid) build_init = Inr b' \<and>
                      build_step min_rank max_seqs incl ign b' (sid, ranks) = Inr b')"
      using ids b2 s same by auto
  qed
  show ?thesis using A B C by (intro conjI)
qed

theorem C8_build_filters_and_quota_witness:
  "build build_example 0 1 [] []
     = Inr ([(''<<root>>'', None), (''K'', Some 0), (''K@@P'', Some 1), (''a'', Some 2),
             (''c'', Some 2), (''K@@Q'', Some 1), (''d'', Some 5)],
            [''a'', ''c'', ''d'']) \<and>
   build_loop 0 1 [] [] [(''a'', [''K'', ''P''])] build_init = Inr build_example_after_a \<and>
   quota_reached build_example_after_a 1 ''K@@P'' \<and>
   ''b'' \<notin> set [''a'', ''c'', ''d''] \<and>
   build_step 0 1 [] [] build_example_after_a (''b'', [''K'', ''P'']) = Inr build_example_after_a \<and>
   passes_filters 0 [] [] [''K'', ''P'', ''-''] \<and>
   ''c'' \<in> set [''a'', ''c'', ''d'']"
proof -
  let ?tree = "[(''<<root>>'', None), (''K'', Some 0), (''K@@P'', Some 1), (''a'', Some 2),
             (''c'', Some 2), (''K@@Q'', Some 1), (''d'', Some (5::nat))]"
  let ?ids = "[''a'', ''c'', ''d'']"
  have d: "distinct (map fst (seq_ranks_map build_example))"
    by (simp add: build_example_def)
  have r: "build build_example 0 1 [] [] = Inr (?tree, ?ids)"
    by code_simp
  have l: "build_loop 0 1 [] [] [(''a'', [''K'', ''P''])] build_init = Inr build_example_after_a"
    by code_simp
  have u: "get_rank_uid [''K'', ''P''] (- 1) = ''K@@P''"
    by code_simp
  have q: "quota_reached build_example_after_a 1 ''K@@P''"
    by (simp add: quota_reached_def build_example_after_a_def)
  have lw: "lowest_assigned_rank_level [''K'', ''P''] = int (length [''K'', ''P'']) - 1"
    by code_simp
  have sp: "seq_ranks_map build_example
              = [(''a'', [''K'', ''P''])] @ [] @ (''b'', [''K'', ''P'']) # 
                [(''c'', [''K'', ''P'', ''-'']), (''d'', [''K'', ''Q''])]"
    by (simp add: build_example_def)
  have sc: "seq_ranks_map build_example
              = [(''a'', [''K'', ''P'']), (''b'', [''K'', ''P''])] @ (''c'', [''K'', ''P'', ''-'']) # 
                [(''d'', [''K'', ''Q''])]"
    by (simp add: build_example_def)
  have pc: "passes_filters 0 [] [] [''K'', ''P'', ''-'']"
    by (simp add: passes_filters_def py_index_def EMPTY_RANK_def)
  have lc: "lowest_assigned_rank_level [''K'', ''P'', ''-''] \<noteq> int (length [''K'', ''P'', ''-'']) - 1"
    by code_simp
  have c: "''c'' \<in> set ?ids"
    using C8_build_filters_and_quota[OF d r, THEN conjunct2, THEN conjunct1, rule_format,
            OF conjI[OF sc conjI[OF pc lc]]] .
  have "''b'' \<notin> set ?ids \<and>
        (\<exists>b'. build_loop 0 1 [] [] ([(''a'', [''K'', ''P''])] @ []) build_init = Inr b' \<and>
              build_step 0 1 [] [] b' (''b'', [''K'', ''P'']) = Inr b')"
    using C8_build_filters_and_quota[OF d r, THEN conjunct2, THEN conjunct2, rule_format,
            OF conjI[OF sp conjI[OF l conjI[OF q[folded u] lw]]]] .
  then have b: "''b'' \<notin> set ?ids"
    and s: "build_step 0 1 [] [] build_example_after_a (''b'', [''K'', ''P'']) = Inr build_example_after_a"
    using l by auto
  show ?thesis using r l q b s pc c by (intro conjI)
qed

section \<open>check_for_duplicates: autofix and a second detection\<close>
































end
